theory Spec2Isabelle
  imports Main "HOL-Library.AList"
begin

section \<open>Errors\<close>

text \<open>
  Every failure of the source is a \<open>ValueError\<close>; the constructors keep what its message
  says. \<open>UnpackError\<close> is the \<open>ValueError\<close> of a tuple assignment such as
  \<open>a, b = s.split("=", 1)\<close> when the separator is missing, and \<open>IntDigitLimit\<close> the
  \<open>ValueError\<close> of the builtin \<open>int\<close> on a numeral with too many digits (it carries their
  number).
\<close>

datatype error =
    UnknownStatement string
  | UnknownVariable string
  | UnknownClass string
  | UnknownField string string
  | UnknownFieldInMethod string string
  | ArityMismatch string nat nat
  | InvalidConstructorArg
  | InvalidFieldValue
  | InvalidCast string string
  | MethodNotFound string string
  | UnpackError
  | IntDigitLimit nat

section \<open>Python string operations used by the interpreter\<close>

text \<open>
  Strings are \<open>char list\<close>. The model covers ASCII text: \<open>isspace\<close> is the ASCII part of
  what \<open>str.strip()\<close> removes and \<open>isdigit\<close> the ASCII part of the regular expression
  class \<open>\d\<close>; a byte above 127 is neither.
\<close>

definition isspace :: "char \<Rightarrow> bool" where
  "isspace c = (c \<in> {CHR 0x09, CHR 0x0A, CHR 0x0B, CHR 0x0C, CHR 0x0D,
                     CHR 0x1C, CHR 0x1D, CHR 0x1E, CHR 0x1F, CHR 0x20})"

definition isdigit :: "char \<Rightarrow> bool" where
  "isdigit c = (c \<in> set ''0123456789'')"

text \<open>\<open>s.strip()\<close>\<close>

definition strip :: "string \<Rightarrow> string" where
  "strip s = rev (dropWhile isspace (rev (dropWhile isspace s)))"

text \<open>\<open>s.startswith(p)\<close>\<close>

definition startswith :: "string \<Rightarrow> string \<Rightarrow> bool" where
  "startswith s p = (take (length p) s = p)"

text \<open>\<open>sub in s\<close>\<close>

fun contains :: "string \<Rightarrow> string \<Rightarrow> bool" where
  "contains sub [] = (sub = [])"
| "contains sub (c # cs) = (startswith (c # cs) sub \<or> contains sub cs)"

text \<open>
  \<open>s.split(sep, 1)\<close> for a non-empty separator: \<open>Some (a, b)\<close> when the result is the
  two-element list \<open>[a, b]\<close> (cut at the first occurrence of \<open>sep\<close>), \<open>None\<close> when \<open>sep\<close>
  does not occur and the result is \<open>[s]\<close>.
\<close>

fun split_once :: "string \<Rightarrow> string \<Rightarrow> (string \<times> string) option" where
  "split_once sep [] = (if startswith [] sep then Some ([], []) else None)"
| "split_once sep (c # cs) =
     (if startswith (c # cs) sep then Some ([], drop (length sep) (c # cs))
      else map_option (\<lambda>(a, b). (c # a, b)) (split_once sep cs))"

text \<open>\<open>s.split(sep, 1)[0]\<close>\<close>

definition split_head :: "string \<Rightarrow> string \<Rightarrow> string" where
  "split_head sep s = (case split_once sep s of None \<Rightarrow> s | Some (a, _) \<Rightarrow> a)"

text \<open>\<open>s.rsplit(c, 1)[0]\<close> for a one-character separator: the part before its last occurrence.\<close>

definition rsplit_head :: "char \<Rightarrow> string \<Rightarrow> string" where
  "rsplit_head c s =
     (if c \<in> set s then rev (tl (dropWhile (\<lambda>x. x \<noteq> c) (rev s))) else s)"

text \<open>\<open>s.split(c)\<close> for a one-character separator: cut at every occurrence.\<close>

fun split_all :: "char \<Rightarrow> string \<Rightarrow> string list" where
  "split_all c [] = [Nil]"
| "split_all c (x # xs) =
     (let r = split_all c xs in if x = c then [] # r else (x # hd r) # tl r)"

text \<open>\<open>sep.join(xs)\<close>\<close>

fun join :: "string \<Rightarrow> string list \<Rightarrow> string" where
  "join sep [] = []"
| "join sep [x] = x"
| "join sep (x # y # ys) = x @ sep @ join sep (y # ys)"

text \<open>
  \<open>is_int\<close> (lang\_types.py, lines 9-16): \<open>re.match\<close> of \<open>-?\d+$\<close>. The match starts at the
  first character; \<open>$\<close> succeeds at the end of the string and also just before a newline
  that ends the string.
\<close>

definition is_int :: "string \<Rightarrow> bool" where
  "is_int tok =
     (let t = (case tok of [] \<Rightarrow> tok | c # cs \<Rightarrow> if c = CHR ''-'' then cs else tok);
          r = dropWhile isdigit t
      in takeWhile isdigit t \<noteq> [] \<and> (r = [] \<or> r = [CHR 0x0A]))"

text \<open>
  The builtin \<open>int(tok)\<close>, which the interpreter only calls on a token that \<open>is_int\<close>
  accepted: surrounding whitespace is dropped, a leading minus sign negates, and the digits
  are read in base ten. Integers are unbounded, as in Python, but \<open>int\<close> refuses a numeral
  of more than \<open>sys.int_max_str_digits\<close> digits with a \<open>ValueError\<close>; the limit is 4300
  unless the program changes it, which this one does not.
\<close>

definition int_max_str_digits :: nat where
  "int_max_str_digits = 4300"

definition digit_val :: "char \<Rightarrow> int" where
  "digit_val c = int (of_char c) - 48"

definition digits_val :: "string \<Rightarrow> int" where
  "digits_val ds = foldl (\<lambda>a c. 10 * a + digit_val c) 0 ds"

definition py_int :: "string \<Rightarrow> error + int" where
  "py_int tok =
     (let t = strip tok;
          neg = (t \<noteq> [] \<and> hd t = CHR ''-'');
          ds = (if neg then tl t else t)
      in if int_max_str_digits < length ds then Inl (IntDigitLimit (length ds))
         else Inr (if neg then - digits_val ds else digits_val ds))"

text \<open>
  The builtin \<open>str(v)\<close> on an integer: its decimal numeral. \<open>str\<close> has the same limit on
  the number of digits as \<open>int\<close>. No run reaches it: every integer the interpreter holds
  was returned by \<open>int\<close> (lemma \<open>printed_values_within_limit\<close> below).
\<close>

definition digit_char :: "nat \<Rightarrow> char" where
  "digit_char d = ''0123456789'' ! d"

function str_nat :: "nat \<Rightarrow> string" where
  "str_nat n = (if n < 10 then [digit_char n] else str_nat (n div 10) @ [digit_char (n mod 10)])"
  by pat_completeness auto
termination
  by (relation "measure id") auto

declare str_nat.simps [simp del]

definition str_int :: "int \<Rightarrow> string" where
  "str_int i = (if i < 0 then CHR ''-'' # str_nat (nat (- i)) else str_nat (nat i))"

section \<open>The class model (lang\_types.py)\<close>

text \<open>
  A \<open>ClassDef\<close> object is reached through a reference; \<open>c is other\<close> compares references.
  The objects live in a store \<open>cref \<Rightarrow> ClassDef\<close>, which no statement changes. The field
  \<open>fields\<close> of the source is \<open>own_fields\<close> here (\<open>fields\<close> is taken by the record package);
  \<open>methods\<close> is a dictionary from a method's name to its tokens.
\<close>

type_synonym cref = nat

record ClassDef =
  name :: string
  base_name :: "string option"
  own_fields :: "string list"
  methods :: "string \<rightharpoonup> string list"
  base :: "cref option"

type_synonym class_store = "cref \<Rightarrow> ClassDef"

text \<open>
  \<open>all_fields\<close> (lines 36-42) recurses along \<open>base\<close>, and the loops of \<open>is_subclass_of\<close>
  (lines 44-53) and \<open>lookup_method\<close> (lines 55-65) follow \<open>base\<close> until it is \<open>None\<close>.
  On a cyclic \<open>base\<close> chain they need not return: the result \<open>None\<close> of the three
  functions below stands for that (for \<open>all_fields\<close>, Python ends the endless recursion
  with a \<open>RecursionError\<close>; its limit on the depth of a finite chain is not modelled).
\<close>

partial_function (option) all_fields :: "class_store \<Rightarrow> cref \<Rightarrow> string list option" where
  [code]: "all_fields ch self =
     (case base (ch self) of
        None \<Rightarrow> Some (own_fields (ch self))
      | Some b \<Rightarrow> Option.bind (all_fields ch b) (\<lambda>bf. Some (bf @ own_fields (ch self))))"

partial_function (option) is_subclass_loop :: "class_store \<Rightarrow> cref option \<Rightarrow> cref \<Rightarrow> bool option" where
  [code]: "is_subclass_loop ch c other =
     (case c of
        None \<Rightarrow> Some False
      | Some r \<Rightarrow> if r = other then Some True else is_subclass_loop ch (base (ch r)) other)"

definition is_subclass_of :: "class_store \<Rightarrow> cref \<Rightarrow> cref \<Rightarrow> bool option" where
  "is_subclass_of ch self other = is_subclass_loop ch (Some self) other"

partial_function (option) lookup_loop ::
    "class_store \<Rightarrow> cref option \<Rightarrow> string \<Rightarrow> string list option option" where
  [code]: "lookup_loop ch c nm =
     (case c of
        None \<Rightarrow> Some None
      | Some r \<Rightarrow>
          (case methods (ch r) nm of
             Some toks \<Rightarrow> Some (Some toks)
           | None \<Rightarrow> lookup_loop ch (base (ch r)) nm))"

definition lookup_method :: "class_store \<Rightarrow> cref \<Rightarrow> string \<Rightarrow> string list option option" where
  "lookup_method ch self nm = lookup_loop ch (Some self) nm"

text \<open>
  The class chain in the words of the specification: the class itself, its base, the base
  of its base, up to the root. \<open>chain_of ch c = Some cs\<close> says that the chain from \<open>c\<close> is
  finite (no cycle) and lists it, leaf first. The loader (parser.py, lines 140-143) calls
  \<open>all_fields\<close> on the base of every class that has one, so a class table with a cycle
  does not get past it; the interpreter itself takes any class table.
\<close>

partial_function (option) chain_of :: "class_store \<Rightarrow> cref \<Rightarrow> cref list option" where
  [code]: "chain_of ch c =
     (case base (ch c) of
        None \<Rightarrow> Some [c]
      | Some b \<Rightarrow> Option.bind (chain_of ch b) (\<lambda>cs. Some (c # cs)))"

section \<open>The interpreter (interpreter.py)\<close>

text \<open>
  An \<open>Instance\<close> object is reached through a reference too: two bindings may hold the
  same reference, and \<open>inst.fields[f] = v\<close> changes the one object both see. The object
  store is \<open>heap\<close>; \<open>next_ref\<close> is the first reference not yet handed out, so creating an
  object writes it at \<open>next_ref\<close>. The dictionary \<open>Instance.fields\<close> (\<open>inst_fields\<close> here)
  keeps its insertion order, which the final dump shows: it is an association list, and
  \<open>AList.update\<close> is the dictionary's item assignment (an existing key keeps its place, a
  new key goes to the end).
\<close>

type_synonym iref = nat

record Instance =
  cls :: cref
  inst_fields :: "(string \<times> int) list"

record VarBinding =
  inst :: iref
  view_cls :: cref

text \<open>
  The interpreter's own attributes are \<open>classes\<close>, \<open>statements\<close> and \<open>env\<close>. With them the
  state holds what the Python run time holds for it: the two object stores and the lines
  printed so far.
\<close>

record Interpreter =
  class_objs :: class_store
  classes :: "string \<rightharpoonup> cref"
  statements :: "string list"
  env :: "string \<rightharpoonup> VarBinding"
  heap :: "iref \<Rightarrow> Instance"
  next_ref :: iref
  stdout :: "string list"

text \<open>
  A statement returns normally (\<open>Ok\<close>) or raises (\<open>Raise\<close>); both carry the state reached.
  The handlers return \<open>result option\<close>, \<open>None\<close> when a walk along a cyclic class chain
  does not return.
\<close>

datatype result = Ok Interpreter | Raise error Interpreter

definition print :: "string \<Rightarrow> Interpreter \<Rightarrow> Interpreter" where
  "print line s = s\<lparr>stdout := stdout s @ [line]\<rparr>"

text \<open>\<open>_get_binding\<close> (lines 209-215)\<close>

definition get_binding :: "string \<Rightarrow> Interpreter \<Rightarrow> error + VarBinding" where
  "get_binding nm s =
     (case env s nm of None \<Rightarrow> Inl (UnknownVariable nm) | Some b \<Rightarrow> Inr b)"

text \<open>Creating an \<open>Instance\<close> object: it is stored at the next free reference.\<close>

definition alloc :: "Instance \<Rightarrow> Interpreter \<Rightarrow> iref \<times> Interpreter" where
  "alloc obj s = (next_ref s, s\<lparr>heap := (heap s)(next_ref s := obj), next_ref := Suc (next_ref s)\<rparr>)"

text \<open>\<open>dict(pairs)\<close>: the pairs are assigned from left to right.\<close>

definition dict_of :: "(string \<times> int) list \<Rightarrow> (string \<times> int) list" where
  "dict_of ps = fold (\<lambda>(k, v). AList.update k v) ps []"

text \<open>\<open>_instantiate\<close> (lines 217-232)\<close>

definition instantiate :: "string \<Rightarrow> int list \<Rightarrow> Interpreter \<Rightarrow> (error + iref \<times> Interpreter) option" where
  "instantiate class_name args s =
     (case classes s class_name of
        None \<Rightarrow> Some (Inl (UnknownClass class_name))
      | Some c \<Rightarrow>
          (case all_fields (class_objs s) c of
             None \<Rightarrow> None
           | Some fs \<Rightarrow>
               if length fs \<noteq> length args
               then Some (Inl (ArityMismatch class_name (length fs) (length args)))
               else Some (Inr (alloc \<lparr>cls = c, inst_fields = dict_of (zip fs args)\<rparr> s))))"

text \<open>\<open>_clone\<close> (lines 234-238)\<close>

definition clone :: "iref \<Rightarrow> Interpreter \<Rightarrow> iref \<times> Interpreter" where
  "clone r s = alloc \<lparr>cls = cls (heap s r), inst_fields = inst_fields (heap s r)\<rparr> s"

text \<open>\<open>_cast_binding\<close> (lines 240-259)\<close>

definition cast_binding :: "VarBinding \<Rightarrow> string \<Rightarrow> Interpreter \<Rightarrow> (error + VarBinding) option" where
  "cast_binding binding target_cls_name s =
     (case classes s target_cls_name of
        None \<Rightarrow> Some (Inl (UnknownClass target_cls_name))
      | Some target_cls \<Rightarrow>
          (case is_subclass_of (class_objs s) (cls (heap s (inst binding))) target_cls of
             None \<Rightarrow> None
           | Some sub \<Rightarrow>
               if \<not> sub
               then Some (Inl (InvalidCast (name (class_objs s (cls (heap s (inst binding)))))
                                           (name (class_objs s target_cls))))
               else Some (Inr \<lparr>inst = inst binding, view_cls = target_cls\<rparr>)))"

subsection \<open>The let statement (lines 67-131)\<close>

text \<open>
  \<open>_exec_let\<close> first takes the statement text apart and then acts on what it found. The
  text work changes no state, so it is a function of its own, \<open>parse_let\<close>: it returns the
  variable's name and the form of the expression, or the error raised on the way (a
  missing separator, or a constructor argument that is no integer literal).
\<close>

datatype let_expr =
    New string "int list"
  | Clone string
  | Cast string string
  | Ref string

text \<open>The loop over the constructor's arguments (lines 90-96).\<close>

fun ctor_args :: "string list \<Rightarrow> int list \<Rightarrow> error + int list" where
  "ctor_args [] args = Inr args"
| "ctor_args (tok # toks) args =
     (if \<not> is_int (strip tok) then Inl InvalidConstructorArg
      else (case py_int (strip tok) of
              Inl e \<Rightarrow> Inl e
            | Inr v \<Rightarrow> ctor_args toks (args @ [v])))"

text \<open>Lines 88-96: no argument at all when the text between the brackets is blank.\<close>

definition parse_new_args :: "string \<Rightarrow> error + int list" where
  "parse_new_args args_str =
     (if strip args_str = [] then Inr [] else ctor_args (split_all CHR '','' args_str) [])"

definition parse_let :: "string \<Rightarrow> error + string \<times> let_expr" where
  "parse_let stmt =
     (case split_once ''let'' stmt of
        None \<Rightarrow> Inl UnpackError
      | Some (_, rest) \<Rightarrow>
          (case split_once ''='' rest of
             None \<Rightarrow> Inl UnpackError
           | Some (name_part, expr_part) \<Rightarrow>
               (let var_name = strip name_part; expr = strip expr_part in
                if startswith expr ''new '' then
                  (case split_once ''('' (strip (drop 4 expr)) of
                     None \<Rightarrow> Inl UnpackError
                   | Some (cls_name, args_str) \<Rightarrow>
                       (case parse_new_args (rsplit_head CHR '')'' args_str) of
                          Inl e \<Rightarrow> Inl e
                        | Inr args \<Rightarrow> Inr (var_name, New (strip cls_name) args)))
                else if startswith expr ''clone '' then
                  Inr (var_name, Clone (strip (drop 6 expr)))
                else if startswith expr ''cast<'' then
                  (case split_once ''>'' (drop 5 expr) of
                     None \<Rightarrow> Inl UnpackError
                   | Some (type_part, rest2) \<Rightarrow>
                       Inr (var_name, Cast (strip type_part) (strip rest2)))
                else Inr (var_name, Ref expr))))"

text \<open>
  What \<open>_exec_let\<close> does with the parsed statement: lines 97-100 for \<open>new\<close>, 105-112 for
  \<open>clone\<close>, 120-123 for \<open>cast\<close>, 126-131 for a plain reference.
\<close>

definition bind_var :: "string \<Rightarrow> VarBinding \<Rightarrow> Interpreter \<Rightarrow> Interpreter" where
  "bind_var var_name b s = s\<lparr>env := (env s)(var_name \<mapsto> b)\<rparr>"

fun exec_let_expr :: "string \<Rightarrow> let_expr \<Rightarrow> Interpreter \<Rightarrow> result option" where
  "exec_let_expr var_name (New cls_name args) s =
     (case instantiate cls_name args s of
        None \<Rightarrow> None
      | Some (Inl e) \<Rightarrow> Some (Raise e s)
      | Some (Inr (r, s')) \<Rightarrow>
          Some (Ok (bind_var var_name \<lparr>inst = r, view_cls = cls (heap s' r)\<rparr> s')))"
| "exec_let_expr var_name (Clone src_name) s =
     (case get_binding src_name s of
        Inl e \<Rightarrow> Some (Raise e s)
      | Inr src_binding \<Rightarrow>
          (let (r, s') = clone (inst src_binding) s in
           Some (Ok (bind_var var_name \<lparr>inst = r, view_cls = view_cls src_binding\<rparr> s'))))"
| "exec_let_expr var_name (Cast target_cls_name src_name) s =
     (case get_binding src_name s of
        Inl e \<Rightarrow> Some (Raise e s)
      | Inr src_binding \<Rightarrow>
          (case cast_binding src_binding target_cls_name s of
             None \<Rightarrow> None
           | Some (Inl e) \<Rightarrow> Some (Raise e s)
           | Some (Inr new_binding) \<Rightarrow> Some (Ok (bind_var var_name new_binding s))))"
| "exec_let_expr var_name (Ref src_name) s =
     (case get_binding src_name s of
        Inl e \<Rightarrow> Some (Raise e s)
      | Inr src_binding \<Rightarrow>
          Some (Ok (bind_var var_name
                      \<lparr>inst = inst src_binding, view_cls = view_cls src_binding\<rparr> s)))"

definition exec_let :: "string \<Rightarrow> Interpreter \<Rightarrow> result option" where
  "exec_let stmt s =
     (case parse_let stmt of
        Inl e \<Rightarrow> Some (Raise e s)
      | Inr (var_name, e) \<Rightarrow> exec_let_expr var_name e s)"

subsection \<open>Field assignment (lines 133-153)\<close>

definition set_field :: "iref \<Rightarrow> string \<Rightarrow> int \<Rightarrow> Interpreter \<Rightarrow> Interpreter" where
  "set_field r field_name v s =
     s\<lparr>heap := (heap s)(r := (heap s r)\<lparr>inst_fields :=
                                 AList.update field_name v (inst_fields (heap s r))\<rparr>)\<rparr>"

text \<open>
  Lines 137-144, which read the statement text: the right-hand side is checked and
  converted first, then the left-hand side is cut at its first dot.
\<close>

definition parse_field_assign :: "string \<Rightarrow> error + string \<times> string \<times> int" where
  "parse_field_assign stmt =
     (case split_once ''='' stmt of
        None \<Rightarrow> Inl UnpackError
      | Some (left, right) \<Rightarrow>
          if \<not> is_int (strip right) then Inl InvalidFieldValue
          else
            (case py_int (strip right) of
               Inl e \<Rightarrow> Inl e
             | Inr v \<Rightarrow>
                 (case split_once ''.'' (strip left) of
                    None \<Rightarrow> Inl UnpackError
                  | Some (var_name, field_name) \<Rightarrow>
                      Inr (strip var_name, strip field_name, v))))"

text \<open>Lines 145-153.\<close>

definition exec_field_assign :: "string \<Rightarrow> Interpreter \<Rightarrow> result option" where
  "exec_field_assign stmt s =
     (case parse_field_assign stmt of
        Inl e \<Rightarrow> Some (Raise e s)
      | Inr (var_name, field_name, v) \<Rightarrow>
          (case get_binding var_name s of
             Inl e \<Rightarrow> Some (Raise e s)
           | Inr binding \<Rightarrow>
               if map_of (inst_fields (heap s (inst binding))) field_name = None
               then Some (Raise (UnknownField field_name
                                   (name (class_objs s (cls (heap s (inst binding)))))) s)
               else Some (Ok (set_field (inst binding) field_name v s))))"

subsection \<open>Method call (lines 155-189)\<close>

text \<open>Lines 160-162: the variable and the method named by the statement.\<close>

definition parse_call :: "string \<Rightarrow> (string \<times> string) option" where
  "parse_call stmt =
     (case split_once ''call'' stmt of
        None \<Rightarrow> None
      | Some (_, rest) \<Rightarrow>
          (case split_once ''.'' (strip rest) of
             None \<Rightarrow> None
           | Some (var_part, method_name) \<Rightarrow> Some (strip var_part, strip method_name)))"

text \<open>The loop over the tokens of the method body (lines 175-187).\<close>

fun eval_tokens :: "(string \<times> int) list \<Rightarrow> string \<Rightarrow> string list \<Rightarrow> int list \<Rightarrow> error + int list" where
  "eval_tokens fs method_name [] values = Inr values"
| "eval_tokens fs method_name (tok # toks) values =
     (if is_int tok then
        (case py_int tok of
           Inl e \<Rightarrow> Inl e
         | Inr v \<Rightarrow> eval_tokens fs method_name toks (values @ [v]))
      else (case map_of fs tok of
              None \<Rightarrow> Inl (UnknownFieldInMethod tok method_name)
            | Some v \<Rightarrow> eval_tokens fs method_name toks (values @ [v])))"

definition exec_call :: "string \<Rightarrow> Interpreter \<Rightarrow> result option" where
  "exec_call stmt s =
     (case parse_call stmt of
        None \<Rightarrow> Some (Raise UnpackError s)
      | Some (var_part, method_name) \<Rightarrow>
          (case get_binding var_part s of
             Inl e \<Rightarrow> Some (Raise e s)
           | Inr binding \<Rightarrow>
               (case lookup_method (class_objs s) (view_cls binding) method_name of
                  None \<Rightarrow> None
                | Some None \<Rightarrow>
                    Some (Raise (MethodNotFound method_name
                                   (name (class_objs s (view_cls binding)))) s)
                | Some (Some tokens) \<Rightarrow>
                    (case eval_tokens (inst_fields (heap s (inst binding))) method_name tokens [] of
                       Inl e \<Rightarrow> Some (Raise e s)
                     | Inr values \<Rightarrow> Some (Ok (print (join '' '' (map str_int values)) s))))))"

subsection \<open>Type test (lines 193-205)\<close>

definition parse_is :: "string \<Rightarrow> (string \<times> string) option" where
  "parse_is stmt = map_option (\<lambda>(a, b). (strip a, strip b)) (split_once '' is '' stmt)"

definition exec_is :: "string \<Rightarrow> Interpreter \<Rightarrow> result option" where
  "exec_is stmt s =
     (case parse_is stmt of
        None \<Rightarrow> Some (Raise UnpackError s)
      | Some (var_name, cls_name) \<Rightarrow>
          (case env s var_name of
             None \<Rightarrow> Some (Ok (print ''ISN'T'' s))
           | Some binding \<Rightarrow>
               (case classes s cls_name of
                  None \<Rightarrow> Some (Ok (print ''ISN'T'' s))
                | Some c \<Rightarrow>
                    (case is_subclass_of (class_objs s) (cls (heap s (inst binding))) c of
                       None \<Rightarrow> None
                     | Some sub \<Rightarrow> Some (Ok (print (if sub then ''IS'' else ''ISN'T'') s))))))"

subsection \<open>Dispatch and the main loop (lines 30-63)\<close>

definition exec_statement :: "string \<Rightarrow> Interpreter \<Rightarrow> result option" where
  "exec_statement stmt0 s =
     (let stmt = strip (split_head '';'' stmt0) in
      if stmt = [] then Some (Ok s)
      else if startswith stmt ''let '' then exec_let stmt s
      else if contains ''.'' stmt \<and> contains ''='' stmt \<and> \<not> startswith stmt ''call ''
        then exec_field_assign stmt s
      else if startswith stmt ''call '' then exec_call stmt s
      else if contains '' is '' stmt then exec_is stmt s
      else Some (Raise (UnknownStatement stmt) s))"

fun run_stmts :: "string list \<Rightarrow> Interpreter \<Rightarrow> result option" where
  "run_stmts [] s = Some (Ok s)"
| "run_stmts (stmt # rest) s =
     (case exec_statement stmt s of
        None \<Rightarrow> None
      | Some (Raise e s') \<Rightarrow> Some (Raise e s')
      | Some (Ok s') \<Rightarrow> run_stmts rest s')"

definition run :: "Interpreter \<Rightarrow> result option" where
  "run s = run_stmts (statements s) s"

text \<open>
  The line \<open>fields\<close> of the final dump (\<open>print_instances\<close>, lines 302 and 308) for the
  variable \<open>var_name\<close>: it reads the fields of the instance the binding refers to.
\<close>

definition fields_str :: "(string \<times> int) list \<Rightarrow> string" where
  "fields_str fs = join '', '' (map (\<lambda>(k, v). k @ ''='' @ str_int v) fs)"

definition dump_fields :: "VarBinding \<Rightarrow> Interpreter \<Rightarrow> string" where
  "dump_fields binding s =
     (let str = fields_str (inst_fields (heap s (inst binding))) in
      ''  fields       : '' @ (if str \<noteq> [] then str else ''(none)''))"

section \<open>Notions of the specification\<close>



text \<open>
  Two properties of a state. \<open>refs_allocated\<close>: every binding refers to an object that was
  created, that is, to a reference below \<open>next_ref\<close>. \<open>views_ok\<close>: the invariant of the
  specification, the runtime class of every bound instance is a subclass of the binding's
  view class.
\<close>

definition refs_allocated :: "Interpreter \<Rightarrow> bool" where
  "refs_allocated s = (\<forall>x b. env s x = Some b \<longrightarrow> inst b < next_ref s)"

definition views_ok :: "Interpreter \<Rightarrow> bool" where
  "views_ok s =
     (\<forall>x b. env s x = Some b \<longrightarrow>
        is_subclass_of (class_objs s) (cls (heap s (inst b))) (view_cls b) = Some True)"

text \<open>
  The integer that a string of decimal digits denotes: digit \<open>i\<close> of \<open>n\<close> digits counts
  \<open>10 ^ (n - 1 - i)\<close>.
\<close>

definition decimal :: "string \<Rightarrow> int" where
  "decimal ds = (\<Sum>i<length ds. digit_val (ds ! i) * 10 ^ (length ds - Suc i))"

text \<open>
  An integer that \<open>str\<close> prints: one of no more decimal digits than the limit. A state
  whose bound instances hold only such integers is \<open>values_printable\<close>.
\<close>

definition printable :: "int \<Rightarrow> bool" where
  "printable v = (\<bar>v\<bar> < 10 ^ int_max_str_digits)"

definition fields_printable :: "(string \<times> int) list \<Rightarrow> bool" where
  "fields_printable fs = (\<forall>v\<in>snd ` set fs. printable v)"

definition values_printable :: "Interpreter \<Rightarrow> bool" where
  "values_printable s =
     (\<forall>x b. env s x = Some b \<longrightarrow> fields_printable (inst_fields (heap s (inst b))))"

text \<open>A numeral of 4301 digits, one more than \<open>int\<close> converts.\<close>

definition long_literal :: string where
  "long_literal = replicate 4301 CHR ''1''"

section \<open>A sample program\<close>

text \<open>
  Class \<open>A\<close> has no base, the field \<open>a\<close> and the method \<open>show -> [a]\<close>; class \<open>B\<close> extends
  \<open>A\<close> with the field \<open>b\<close> and overrides \<open>show -> [b]\<close>. The object of \<open>A\<close> is at reference
  0, that of \<open>B\<close> at reference 1. \<open>demo\<close> is the interpreter before its first statement.
\<close>

definition class_A :: ClassDef where
  "class_A = \<lparr>name = ''A'', base_name = None, own_fields = [''a''],
              methods = [''show'' \<mapsto> [''a'']], base = None\<rparr>"

definition class_B :: ClassDef where
  "class_B = \<lparr>name = ''B'', base_name = Some ''A'', own_fields = [''b''],
              methods = [''show'' \<mapsto> [''b'']], base = Some 0\<rparr>"

definition demo :: Interpreter where
  "demo = \<lparr>class_objs = (\<lambda>r. if r = 0 then class_A else class_B),
           classes = [''A'' \<mapsto> 0, ''B'' \<mapsto> 1],
           statements = [],
           env = Map.empty,
           heap = (\<lambda>_. \<lparr>cls = 0, inst_fields = []\<rparr>),
           next_ref = 0,
           stdout = []\<rparr>"

text \<open>
  \<open>demo_B\<close> is the state after \<open>let x = new B(1, 2)\<close>, \<open>demo_A\<close> the state after
  \<open>let x = new A(1)\<close>, both run from \<open>demo\<close>.
\<close>

definition demo_B :: Interpreter where
  "demo_B = demo\<lparr>heap := (heap demo)(0 := \<lparr>cls = 1, inst_fields = [(''a'', 1), (''b'', 2)]\<rparr>),
                  next_ref := 1,
                  env := [''x'' \<mapsto> \<lparr>inst = 0, view_cls = 1\<rparr>]\<rparr>"

definition demo_A :: Interpreter where
  "demo_A = demo\<lparr>heap := (heap demo)(0 := \<lparr>cls = 0, inst_fields = [(''a'', 1)]\<rparr>),
                  next_ref := 1,
                  env := [''x'' \<mapsto> \<lparr>inst = 0, view_cls = 0\<rparr>]\<rparr>"

text \<open>\<open>demo_cast\<close> is the state after \<open>let y = cast<A> x\<close>, run from \<open>demo_B\<close>.\<close>

definition demo_cast :: Interpreter where
  "demo_cast = demo_B\<lparr>env := (env demo_B)(''y'' \<mapsto> \<lparr>inst = 0, view_cls = 0\<rparr>)\<rparr>"

text \<open>
  \<open>demo_ref\<close> is the state after \<open>let y = x\<close> and \<open>demo_clone\<close> the state after
  \<open>let z = clone x\<close>, both run from \<open>demo_B\<close>.
\<close>

definition demo_ref :: Interpreter where
  "demo_ref = demo_B\<lparr>env := (env demo_B)(''y'' \<mapsto> \<lparr>inst = 0, view_cls = 1\<rparr>)\<rparr>"

definition demo_clone :: Interpreter where
  "demo_clone = demo_B\<lparr>heap := (heap demo_B)(1 := \<lparr>cls = 1, inst_fields = [(''a'', 1), (''b'', 2)]\<rparr>),
                      next_ref := 2,
                      env := (env demo_B)(''z'' \<mapsto> \<lparr>inst = 1, view_cls = 1\<rparr>)\<rparr>"

section \<open>The walks along a finite class chain\<close>

lemma chain_of_cases:
  assumes "chain_of ch c = Some cs"
  shows "(base (ch c) = None \<and> cs = [c]) \<or>
         (\<exists>b cs'. base (ch c) = Some b \<and> chain_of ch b = Some cs' \<and> cs = c # cs')"
  using assms by (subst (asm) chain_of.simps) (auto split: option.splits Option.bind_splits)

lemma chain_of_hd: "chain_of ch c = Some cs \<Longrightarrow> \<exists>anc. cs = c # anc"
  by (drule chain_of_cases) auto

lemma all_fields_chain:
  "chain_of ch c = Some cs \<Longrightarrow>
   all_fields ch c = Some (concat (map (\<lambda>r. own_fields (ch r)) (rev cs)))"
proof (induction cs arbitrary: c)
  case Nil
  then show ?case by (auto dest: chain_of_cases)
next
  case (Cons x xs)
  from chain_of_cases [OF Cons.prems] show ?case
  proof (elim disjE conjE exE)
    assume "base (ch c) = None" "x # xs = [c]"
    then show ?thesis by (subst all_fields.simps) simp
  next
    fix b cs' assume b: "base (ch c) = Some b" "chain_of ch b = Some cs'" "x # xs = c # cs'"
    then have "all_fields ch b = Some (concat (map (\<lambda>r. own_fields (ch r)) (rev xs)))"
      using Cons.IH by simp
    with b show ?thesis by (subst all_fields.simps) simp
  qed
qed

lemma is_subclass_chain:
  "chain_of ch c = Some cs \<Longrightarrow> is_subclass_of ch c other = Some (other \<in> set cs)"
  unfolding is_subclass_of_def
proof (induction cs arbitrary: c)
  case Nil
  then show ?case by (auto dest: chain_of_cases)
next
  case (Cons x xs)
  from chain_of_cases [OF Cons.prems] show ?case
  proof (elim disjE conjE exE)
    assume "base (ch c) = None" "x # xs = [c]"
    then show ?thesis
      by (subst is_subclass_loop.simps) (simp add: is_subclass_loop.simps [of ch None])
  next
    fix b cs' assume b: "base (ch c) = Some b" "chain_of ch b = Some cs'" "x # xs = c # cs'"
    then have "is_subclass_loop ch (Some b) other = Some (other \<in> set xs)"
      using Cons.IH by simp
    with b show ?thesis by (subst is_subclass_loop.simps) auto
  qed
qed


lemma map_of_fold_update:
  "map_of (fold (\<lambda>(k, v). AList.update k v) ps d) = map_of d ++ map_of (rev ps)"
  by (induction ps arbitrary: d) (auto simp: update_conv' map_add_def fun_eq_iff split: option.splits)

lemma map_of_dict_of: "map_of (dict_of ps) = map_of (rev ps)"
  by (simp add: dict_of_def map_of_fold_update)

lemma update_fresh: "k \<notin> fst ` set d \<Longrightarrow> AList.update k v d = d @ [(k, v)]"
  by (induction d) auto

lemma fold_update_distinct:
  "distinct (map fst (d @ ps)) \<Longrightarrow> fold (\<lambda>(k, v). AList.update k v) ps d = d @ ps"
proof (induction ps arbitrary: d)
  case Nil
  then show ?case by simp
next
  case (Cons p ps)
  obtain k v where p: "p = (k, v)" by (cases p)
  from Cons.prems p have "k \<notin> fst ` set d" by auto
  then have "AList.update k v d = d @ [(k, v)]" by (rule update_fresh)
  moreover from Cons.prems p have "distinct (map fst ((d @ [(k, v)]) @ ps))" by simp
  ultimately show ?case using Cons.IH [of "d @ [(k, v)]"] p by simp
qed

lemma dict_of_distinct: "distinct (map fst ps) \<Longrightarrow> dict_of ps = ps"
  using fold_update_distinct [of "[]" ps] by (simp add: dict_of_def)

lemma map_of_rev_zip_positional:
  "length fs = length args \<Longrightarrow> i < length fs \<Longrightarrow> fs ! i \<notin> set (drop (Suc i) fs) \<Longrightarrow>
   map_of (rev (zip fs args)) (fs ! i) = Some (args ! i)"
proof (induction fs args arbitrary: i rule: list_induct2)
  case Nil
  then show ?case by simp
next
  case (Cons f fs a as)
  show ?case
  proof (cases i)
    case 0
    with Cons.prems have "f \<notin> set fs" by simp
    then have "map_of (rev (zip fs as)) f = None"
      by (auto simp: map_of_eq_None_iff dest: set_zip_leftD)
    with 0 show ?thesis by (simp add: map_add_def)
  next
    case (Suc j)
    with Cons.prems have "map_of (rev (zip fs as)) (fs ! j) = Some (as ! j)"
      by (intro Cons.IH) auto
    with Suc show ?thesis by (simp add: map_add_def)
  qed
qed


lemma chain_of_suffix:
  "chain_of ch c = Some cs \<Longrightarrow> x \<in> set cs \<Longrightarrow> \<exists>pre xs. cs = pre @ xs \<and> chain_of ch x = Some xs"
proof (induction cs arbitrary: c)
  case Nil
  then show ?case by simp
next
  case (Cons a cs)
  show ?case
  proof (cases "x = c")
    case True
    with Cons.prems(1) show ?thesis by (intro exI [of _ "[]"] exI [of _ "a # cs"]) simp
  next
    case False
    from chain_of_cases [OF Cons.prems(1)] False Cons.prems(2)
    obtain b where b: "a = c" "chain_of ch b = Some cs" "x \<in> set cs" by auto
    from Cons.IH [OF b(2,3)] obtain pre xs where "cs = pre @ xs" "chain_of ch x = Some xs" by blast
    then show ?thesis by (intro exI [of _ "a # pre"] exI [of _ xs]) simp
  qed
qed

lemma chain_of_antisym:
  assumes "chain_of ch c = Some cs" "chain_of ch d = Some ds" "d \<in> set cs" "c \<in> set ds"
  shows "c = d"
proof -
  from chain_of_suffix [OF assms(1,3)] assms(2) obtain p where p: "cs = p @ ds" by auto
  from chain_of_suffix [OF assms(2,4)] assms(1) obtain q where q: "ds = q @ cs" by auto
  from p q have "p = []" by (metis append_self_conv2 append_assoc Nil_is_append_conv)
  with p have "cs = ds" by simp
  with chain_of_hd [OF assms(1)] chain_of_hd [OF assms(2)] show ?thesis by auto
qed

section \<open>Text and token lemmas\<close>

lemma contains_split_once: "contains sep s \<Longrightarrow> \<exists>a b. split_once sep s = Some (a, b)"
  by (induction s) (auto simp: startswith_def)



section \<open>What a statement changes\<close>

lemma exec_field_assign_Ok:
  assumes "parse_field_assign stmt = Inr (p, f, n)" and "exec_field_assign stmt s = Some (Ok s')"
  shows "\<exists>bp. env s p = Some bp \<and> map_of (inst_fields (heap s (inst bp))) f \<noteq> None
              \<and> s' = set_field (inst bp) f n s"
  using assms
  by (auto simp: exec_field_assign_def get_binding_def split: option.splits if_splits)

lemma set_field_simps:
  "env (set_field r f n s) = env s"
  "class_objs (set_field r f n s) = class_objs s"
  "classes (set_field r f n s) = classes s"
  "next_ref (set_field r f n s) = next_ref s"
  "stdout (set_field r f n s) = stdout s"
  "heap (set_field r f n s) r = (heap s r)\<lparr>inst_fields := AList.update f n (inst_fields (heap s r))\<rparr>"
  "r' \<noteq> r \<Longrightarrow> heap (set_field r f n s) r' = heap s r'"
  "cls (heap (set_field r f n s) r') = cls (heap s r')"
  by (simp_all add: set_field_def)

lemma binding_eta: "\<lparr>inst = inst b, view_cls = view_cls b\<rparr> = b"
  by (cases b) simp

lemma exec_let_alias_Ok:
  assumes "parse_let stmt = Inr (x, e)" and "e = Ref y \<or> e = Cast target y"
      and "exec_let stmt s = Some (Ok s1)"
  shows "\<exists>b bx. env s y = Some b \<and> s1 = s\<lparr>env := (env s)(x \<mapsto> bx)\<rparr> \<and> inst bx = inst b
               \<and> (e = Ref y \<longrightarrow> view_cls bx = view_cls b)"
proof -
  from assms(1,3) have run: "exec_let_expr x e s = Some (Ok s1)" by (simp add: exec_let_def)
  from assms(2) show ?thesis
  proof
    assume e: "e = Ref y"
    with run obtain b where b: "env s y = Some b" "s1 = s\<lparr>env := (env s)(x \<mapsto> b)\<rparr>"
      by (auto simp: get_binding_def bind_var_def binding_eta split: option.splits)
    then show ?thesis by blast
  next
    assume e: "e = Cast target y"
    with run obtain b t where b: "env s y = Some b"
        "s1 = s\<lparr>env := (env s)(x \<mapsto> \<lparr>inst = inst b, view_cls = t\<rparr>)\<rparr>"
      by (auto simp: get_binding_def cast_binding_def bind_var_def
               split: option.splits if_splits)
    have "inst \<lparr>inst = inst b, view_cls = t\<rparr> = inst b" by simp
    with b e show ?thesis by blast
  qed
qed

lemma is_subclass_of_refl: "is_subclass_of ch c c = Some True"
  by (simp add: is_subclass_of_def is_subclass_loop.simps)

lemma instantiate_Inr:
  assumes "instantiate class_name args s = Some (Inr (r, s'))"
  shows "\<exists>obj. r = next_ref s \<and> s' = s\<lparr>heap := (heap s)(next_ref s := obj), next_ref := Suc (next_ref s)\<rparr>"
  using assms by (auto simp: instantiate_def alloc_def split: option.splits if_splits)

lemma exec_let_expr_Ok:
  assumes "exec_let_expr x e s = Some (Ok s')"
  shows "(\<exists>obj. e = New (case e of New c _ \<Rightarrow> c | _ \<Rightarrow> []) (case e of New _ a \<Rightarrow> a | _ \<Rightarrow> [])
            \<and> s' = s\<lparr>heap := (heap s)(next_ref s := obj), next_ref := Suc (next_ref s),
                     env := (env s)(x \<mapsto> \<lparr>inst = next_ref s, view_cls = cls obj\<rparr>)\<rparr>)
       \<or> (\<exists>src b. e = Clone src \<and> env s src = Some b
            \<and> s' = s\<lparr>heap := (heap s)(next_ref s := \<lparr>cls = cls (heap s (inst b)),
                                                      inst_fields = inst_fields (heap s (inst b))\<rparr>),
                     next_ref := Suc (next_ref s),
                     env := (env s)(x \<mapsto> \<lparr>inst = next_ref s, view_cls = view_cls b\<rparr>)\<rparr>)
       \<or> (\<exists>target src b t. e = Cast target src \<and> env s src = Some b
            \<and> is_subclass_of (class_objs s) (cls (heap s (inst b))) t = Some True
            \<and> s' = s\<lparr>env := (env s)(x \<mapsto> \<lparr>inst = inst b, view_cls = t\<rparr>)\<rparr>)
       \<or> (\<exists>src b. e = Ref src \<and> env s src = Some b \<and> s' = s\<lparr>env := (env s)(x \<mapsto> b)\<rparr>)"
proof (cases e)
  case (New c a)
  with assms obtain r s1 where i: "instantiate c a s = Some (Inr (r, s1))"
      and s': "s' = bind_var x \<lparr>inst = r, view_cls = cls (heap s1 r)\<rparr> s1"
    by (auto split: option.splits sum.splits)
  from instantiate_Inr [OF i] obtain obj where
    "r = next_ref s" "s1 = s\<lparr>heap := (heap s)(next_ref s := obj), next_ref := Suc (next_ref s)\<rparr>"
    by blast
  with s' New show ?thesis by (auto simp: bind_var_def)
next
  case (Clone src)
  with assms show ?thesis
    by (auto simp: get_binding_def clone_def alloc_def bind_var_def split: option.splits)
next
  case (Cast target src)
  with assms show ?thesis
    by (auto simp: get_binding_def cast_binding_def bind_var_def split: option.splits if_splits)
next
  case (Ref src)
  with assms show ?thesis
    by (auto simp: get_binding_def bind_var_def binding_eta split: option.splits)
qed

lemma exec_let_expr_inv:
  assumes "exec_let_expr x e s = Some (Ok s')" and "refs_allocated s" and "views_ok s"
  shows "refs_allocated s' \<and> views_ok s' \<and> class_objs s' = class_objs s"
  using exec_let_expr_Ok [OF assms(1)]
proof (elim disjE exE conjE)
  fix obj
  assume s': "s' = s\<lparr>heap := (heap s)(next_ref s := obj), next_ref := Suc (next_ref s),
                     env := (env s)(x \<mapsto> \<lparr>inst = next_ref s, view_cls = cls obj\<rparr>)\<rparr>"
  have "inst b \<noteq> next_ref s" if "env s y = Some b" for y b
    using assms(2) that unfolding refs_allocated_def by fastforce
  with assms(2,3) show ?thesis
    by (auto simp: s' refs_allocated_def views_ok_def is_subclass_of_refl less_Suc_eq)
next
  fix src b
  assume b: "env s src = Some b"
    and s': "s' = s\<lparr>heap := (heap s)(next_ref s := \<lparr>cls = cls (heap s (inst b)),
                                                      inst_fields = inst_fields (heap s (inst b))\<rparr>),
                     next_ref := Suc (next_ref s),
                     env := (env s)(x \<mapsto> \<lparr>inst = next_ref s, view_cls = view_cls b\<rparr>)\<rparr>"
  have "inst b' \<noteq> next_ref s" if "env s y = Some b'" for y b'
    using assms(2) that unfolding refs_allocated_def by fastforce
  with assms(2,3) b show ?thesis
    by (auto simp: s' refs_allocated_def views_ok_def less_Suc_eq)
next
  fix target src b t
  assume "env s src = Some b"
     "is_subclass_of (class_objs s) (cls (heap s (inst b))) t = Some True"
     "s' = s\<lparr>env := (env s)(x \<mapsto> \<lparr>inst = inst b, view_cls = t\<rparr>)\<rparr>"
  with assms(2,3) show ?thesis
    by (auto simp: refs_allocated_def views_ok_def)
next
  fix src b
  assume "env s src = Some b" "s' = s\<lparr>env := (env s)(x \<mapsto> b)\<rparr>"
  with assms(2,3) show ?thesis
    by (auto simp: refs_allocated_def views_ok_def)
qed

lemma exec_let_expr_env:
  assumes "exec_let_expr x e s = Some (Ok s')" and "y \<noteq> x"
  shows "env s' y = env s y"
  using exec_let_expr_Ok [OF assms(1)] assms(2) by auto

lemma exec_field_assign_inv:
  assumes "exec_field_assign stmt s = Some (Ok s')"
  shows "env s' = env s \<and> class_objs s' = class_objs s \<and> next_ref s' = next_ref s
       \<and> (\<forall>r. cls (heap s' r) = cls (heap s r))"
  using assms
  by (auto simp: exec_field_assign_def get_binding_def set_field_def
           split: sum.splits option.splits if_splits)

lemma exec_call_inv:
  assumes "exec_call stmt s = Some (Ok s')"
  shows "env s' = env s \<and> class_objs s' = class_objs s \<and> next_ref s' = next_ref s \<and> heap s' = heap s"
  using assms
  by (auto simp: exec_call_def print_def split: sum.splits option.splits)

lemma exec_is_inv:
  assumes "exec_is stmt s = Some (Ok s')"
  shows "env s' = env s \<and> class_objs s' = class_objs s \<and> next_ref s' = next_ref s \<and> heap s' = heap s"
  using assms
  by (auto simp: exec_is_def print_def split: option.splits)

lemma exec_statement_cases:
  assumes "exec_statement st s = Some (Ok s')"
  shows "s' = s
       \<or> (\<exists>x e. parse_let (strip (split_head '';'' st)) = Inr (x, e)
                 \<and> exec_let_expr x e s = Some (Ok s'))
       \<or> exec_field_assign (strip (split_head '';'' st)) s = Some (Ok s')
       \<or> exec_call (strip (split_head '';'' st)) s = Some (Ok s')
       \<or> exec_is (strip (split_head '';'' st)) s = Some (Ok s')"
  using assms
  by (auto simp: exec_statement_def Let_def exec_let_def split: if_splits sum.splits)

lemma exec_statement_inv:
  assumes "exec_statement st s = Some (Ok s')" and "refs_allocated s" and "views_ok s"
  shows "refs_allocated s' \<and> views_ok s' \<and> class_objs s' = class_objs s"
  using exec_statement_cases [OF assms(1)]
proof (elim disjE exE conjE)
  assume "s' = s" with assms(2,3) show ?thesis by simp
next
  fix x e assume "exec_let_expr x e s = Some (Ok s')"
  from exec_let_expr_inv [OF this assms(2,3)] show ?thesis .
next
  assume "exec_field_assign (strip (split_head '';'' st)) s = Some (Ok s')"
  from exec_field_assign_inv [OF this] assms(2,3) show ?thesis
    by (simp add: refs_allocated_def views_ok_def)
next
  assume "exec_call (strip (split_head '';'' st)) s = Some (Ok s')"
  from exec_call_inv [OF this] assms(2,3) show ?thesis
    by (simp add: refs_allocated_def views_ok_def)
next
  assume "exec_is (strip (split_head '';'' st)) s = Some (Ok s')"
  from exec_is_inv [OF this] assms(2,3) show ?thesis
    by (simp add: refs_allocated_def views_ok_def)
qed

lemma run_stmts_inv:
  "run_stmts stmts s = Some (Ok s') \<Longrightarrow> refs_allocated s \<Longrightarrow> views_ok s \<Longrightarrow>
   refs_allocated s' \<and> views_ok s' \<and> class_objs s' = class_objs s"
proof (induction stmts arbitrary: s)
  case Nil
  then show ?case by simp
next
  case (Cons st stmts)
  from Cons.prems(1) obtain s1 where s1: "exec_statement st s = Some (Ok s1)"
      and rest: "run_stmts stmts s1 = Some (Ok s')"
    by (auto split: option.splits result.splits)
  from exec_statement_inv [OF s1 Cons.prems(2,3)] Cons.IH [OF rest] show ?case by simp
qed

lemma empty_env_inv: "env s = Map.empty \<Longrightarrow> refs_allocated s \<and> views_ok s"
  by (simp add: refs_allocated_def views_ok_def)

section \<open>The sample program, run\<close>

lemma dispatch_let:
  "stmt = strip (split_head '';'' st) \<Longrightarrow> startswith stmt ''let '' \<Longrightarrow>
   exec_statement st s = exec_let stmt s"
  by (auto simp: exec_statement_def Let_def startswith_def)

lemma demo_step_new: "exec_statement ''let x = new B(1, 2)'' demo = Some (Ok demo_B)"
proof -
  have c: "''let x = new B(1, 2)'' = strip (split_head '';'' ''let x = new B(1, 2)'')" by code_simp
  have l: "startswith ''let x = new B(1, 2)'' ''let ''" by code_simp
  have p: "parse_let ''let x = new B(1, 2)'' = Inr (''x'', New ''B'' [1, 2])" by code_simp
  have a: "all_fields (class_objs demo) (Suc 0) = Some [''a'', ''b'']"
    by (simp add: all_fields.simps demo_def class_A_def class_B_def)
  have k: "classes demo ''B'' = Some 1" "next_ref demo = 0" "env demo = Map.empty"
    by (simp_all add: demo_def)
  have "exec_let ''let x = new B(1, 2)'' demo = Some (Ok demo_B)"
    by (simp add: exec_let_def p instantiate_def k a alloc_def bind_var_def dict_of_def demo_B_def)
  with dispatch_let [OF c l, of demo] show ?thesis by simp
qed

lemma demo_step_cast: "exec_statement ''let y = cast<A> x'' demo_B = Some (Ok demo_cast)"
proof -
  have c: "''let y = cast<A> x'' = strip (split_head '';'' ''let y = cast<A> x'')" by code_simp
  have l: "startswith ''let y = cast<A> x'' ''let ''" by code_simp
  have p: "parse_let ''let y = cast<A> x'' = Inr (''y'', Cast ''A'' ''x'')" by code_simp
  have k: "classes demo_B ''A'' = Some 0" "env demo_B ''x'' = Some \<lparr>inst = 0, view_cls = 1\<rparr>"
    by (simp_all add: demo_B_def demo_def)
  have sub: "is_subclass_of (class_objs demo_B) (cls (heap demo_B 0)) 0 = Some True"
    by (simp add: is_subclass_of_def is_subclass_loop.simps demo_B_def demo_def class_B_def)
  have "exec_let ''let y = cast<A> x'' demo_B = Some (Ok demo_cast)"
    by (simp add: exec_let_def p get_binding_def k cast_binding_def sub bind_var_def demo_cast_def)
  with dispatch_let [OF c l, of demo_B] show ?thesis by simp
qed

lemma demo_run_new: "run_stmts [''let x = new B(1, 2)''] demo = Some (Ok demo_B)"
  by (simp add: demo_step_new)

lemma demo_run_cast:
  "run_stmts [''let x = new B(1, 2)'', ''let y = cast<A> x''] demo = Some (Ok demo_cast)"
  by (simp add: demo_step_new demo_step_cast)

lemma demo_step_new_A: "exec_statement ''let x = new A(1)'' demo = Some (Ok demo_A)"
proof -
  have c: "''let x = new A(1)'' = strip (split_head '';'' ''let x = new A(1)'')" by code_simp
  have l: "startswith ''let x = new A(1)'' ''let ''" by code_simp
  have p: "parse_let ''let x = new A(1)'' = Inr (''x'', New ''A'' [1])" by code_simp
  have a: "all_fields (class_objs demo) 0 = Some [''a'']"
    by (simp add: all_fields.simps demo_def class_A_def)
  have k: "classes demo ''A'' = Some 0" "next_ref demo = 0" "env demo = Map.empty"
    by (simp_all add: demo_def)
  have "exec_let ''let x = new A(1)'' demo = Some (Ok demo_A)"
    by (simp add: exec_let_def p instantiate_def k a alloc_def bind_var_def dict_of_def demo_A_def)
  with dispatch_let [OF c l, of demo] show ?thesis by simp
qed

section \<open>Integer literals\<close>

lemma digit_val_digits:
  "map digit_val ''0123456789'' = [0, 1, 2, 3, 4, 5, 6, 7, 8, 9]"
  by (simp add: digit_val_def)

lemma isdigit_not_space: "isdigit c \<Longrightarrow> \<not> isspace c"
  by (auto simp: isdigit_def isspace_def)

lemma isdigit_not_minus: "isdigit c \<Longrightarrow> c \<noteq> CHR ''-''"
  by (auto simp: isdigit_def)

lemma strip_id:
  assumes "s \<noteq> []" and "\<not> isspace (hd s)" and "\<not> isspace (last s)"
  shows "strip s = s"
proof -
  from assms(1,2) have a: "dropWhile isspace s = s" by (cases s) auto
  from assms(1,3) have "dropWhile isspace (rev s) = rev s"
    by (cases "rev s") (auto simp: last_rev [symmetric] hd_rev)
  with a show ?thesis by (simp add: strip_def)
qed

lemma decimal_snoc: "decimal (ds @ [c]) = 10 * decimal ds + digit_val c"
proof -
  have "(\<Sum>i<length ds. digit_val ((ds @ [c]) ! i) * 10 ^ (length ds - i))
      = (\<Sum>i<length ds. 10 * (digit_val (ds ! i) * 10 ^ (length ds - Suc i)))"
  proof (rule sum.cong [OF refl])
    fix i assume "i \<in> {..<length ds}"
    then have i: "i < length ds" by simp
    then have "length ds - i = Suc (length ds - Suc i)" by simp
    with i show "digit_val ((ds @ [c]) ! i) * 10 ^ (length ds - i)
        = 10 * (digit_val (ds ! i) * 10 ^ (length ds - Suc i))"
      by (simp add: nth_append)
  qed
  then show ?thesis by (simp add: decimal_def sum_distrib_left)
qed

lemma digits_val_decimal: "digits_val ds = decimal ds"
proof (induction ds rule: rev_induct)
  case Nil
  then show ?case by (simp add: digits_val_def decimal_def)
next
  case (snoc c ds)
  then show ?case by (simp add: decimal_snoc) (simp add: digits_val_def)
qed

lemma digits_is_int:
  assumes "ds \<noteq> []" and "\<forall>c\<in>set ds. isdigit c"
  shows "is_int ds" and "is_int (CHR ''-'' # ds)"
proof -
  from assms(2) have t: "takeWhile isdigit ds = ds" "dropWhile isdigit ds = []" by simp_all
  from assms have "isdigit (hd ds)" by simp
  then have "hd ds \<noteq> CHR ''-''" by (rule isdigit_not_minus)
  with assms(1) have sel: "(case ds of [] \<Rightarrow> ds | c # cs \<Rightarrow> if c = CHR ''-'' then cs else ds) = ds"
    by (cases ds) auto
  show "is_int ds" using assms by (simp add: is_int_def sel t)
  show "is_int (CHR ''-'' # ds)" using assms by (simp add: is_int_def t)
qed

lemma digits_strip:
  assumes "ds \<noteq> []" and "\<forall>c\<in>set ds. isdigit c"
  shows "strip ds = ds" and "strip (CHR ''-'' # ds) = CHR ''-'' # ds"
proof -
  from assms have h: "\<not> isspace (hd ds)" "\<not> isspace (last ds)"
    by (auto intro!: isdigit_not_space)
  from assms(1) h show "strip ds = ds" by (rule strip_id)
  have "\<not> isspace (CHR ''-'')" by (simp add: isspace_def)
  with assms(1) h(2) show "strip (CHR ''-'' # ds) = CHR ''-'' # ds"
    by (intro strip_id) auto
qed

lemma digits_py_int:
  assumes "ds \<noteq> []" and "\<forall>c\<in>set ds. isdigit c"
  shows "py_int ds =
           (if int_max_str_digits < length ds then Inl (IntDigitLimit (length ds))
            else Inr (decimal ds))"
    and "py_int (CHR ''-'' # ds) =
           (if int_max_str_digits < length ds then Inl (IntDigitLimit (length ds))
            else Inr (- decimal ds))"
proof -
  from assms have "isdigit (hd ds)" by simp
  then have "hd ds \<noteq> CHR ''-''" by (rule isdigit_not_minus)
  with assms(1) digits_strip(1) [OF assms]
  show "py_int ds =
           (if int_max_str_digits < length ds then Inl (IntDigitLimit (length ds))
            else Inr (decimal ds))"
    by (simp add: py_int_def Let_def digits_val_decimal)
  from digits_strip(2) [OF assms]
  show "py_int (CHR ''-'' # ds) =
           (if int_max_str_digits < length ds then Inl (IntDigitLimit (length ds))
            else Inr (- decimal ds))"
    by (simp add: py_int_def Let_def digits_val_decimal)
qed

lemma strip_leading_space: "strip (CHR '' '' # s) = strip s"
  by (simp add: strip_def isspace_def)

lemma split_all_absent: "c \<notin> set s \<Longrightarrow> split_all c s = [s]"
  by (induction s) auto

section \<open>The integers the interpreter holds\<close>

text \<open>
  Every integer comes from \<open>int\<close> on a token that \<open>is_int\<close> accepted, so it has no more
  digits than the limit: in a state reached from an empty environment, every value that a
  method call is about to print is one that \<open>str\<close> converts.
\<close>

lemma isdigit_val: "isdigit c \<Longrightarrow> 0 \<le> digit_val c \<and> digit_val c \<le> 9"
  by (auto simp: isdigit_def digit_val_def)

lemma decimal_bounds:
  "\<forall>c\<in>set ds. isdigit c \<Longrightarrow> 0 \<le> decimal ds \<and> decimal ds < 10 ^ length ds"
proof (induction ds rule: rev_induct)
  case Nil
  then show ?case by (simp add: decimal_def)
next
  case (snoc c ds)
  then have ih: "0 \<le> decimal ds" "decimal ds < 10 ^ length ds" by simp_all
  from snoc.prems isdigit_val [of c] have c: "0 \<le> digit_val c" "digit_val c \<le> 9" by simp_all
  from ih(2) have "10 * decimal ds + 10 \<le> 10 * 10 ^ length ds" by simp
  with ih(1) c show ?case by (simp add: decimal_snoc)
qed

lemma str_nat_length: "0 < k \<Longrightarrow> n < 10 ^ k \<Longrightarrow> length (str_nat n) \<le> k"
proof (induction n arbitrary: k rule: str_nat.induct)
  case (1 n)
  show ?case
  proof (cases "n < 10")
    case True
    with "1.prems" show ?thesis by (simp add: str_nat.simps [of n])
  next
    case False
    from "1.prems"(1) obtain k' where k1: "k = Suc k'" by (cases k) auto
    have "0 < k'"
    proof (rule ccontr)
      assume "\<not> 0 < k'"
      with k1 "1.prems"(2) False show False by simp
    qed
    with k1 have k': "k = Suc k'" "0 < k'" by simp_all
    from "1.prems"(2) k' have "n div 10 < 10 ^ k'"
      by (simp add: less_mult_imp_div_less mult.commute)
    from "1.IH" [OF False k'(2) this] False k' show ?thesis
      by (simp add: str_nat.simps [of n])
  qed
qed

lemma printable_str:
  "printable v \<Longrightarrow> length (str_nat (nat \<bar>v\<bar>)) \<le> int_max_str_digits"
proof -
  assume "printable v"
  then have "nat \<bar>v\<bar> < 10 ^ int_max_str_digits"
    by (simp add: printable_def nat_less_iff)
  moreover have "0 < int_max_str_digits" by (simp add: int_max_str_digits_def)
  ultimately show ?thesis by (rule str_nat_length [rotated])
qed

lemma strip_trailing_newline:
  assumes "s \<noteq> []" and "\<not> isspace (hd s)" and "\<not> isspace (last s)"
  shows "strip (s @ [CHR 0x0A]) = s"
proof -
  from assms(1,2) have a: "dropWhile isspace (s @ [CHR 0x0A]) = s @ [CHR 0x0A]"
    by (cases s) auto
  from assms(1,3) have "dropWhile isspace (rev s) = rev s"
    by (cases "rev s") (auto simp: last_rev [symmetric] hd_rev)
  with a show ?thesis by (simp add: strip_def isspace_def)
qed

lemma is_int_shape:
  assumes "is_int tok"
  shows "\<exists>ds. ds \<noteq> [] \<and> (\<forall>c\<in>set ds. isdigit c) \<and> (strip tok = ds \<or> strip tok = CHR ''-'' # ds)"
proof -
  define t where "t = (case tok of [] \<Rightarrow> tok | c # cs \<Rightarrow> if c = CHR ''-'' then cs else tok)"
  define ds where "ds = takeWhile isdigit t"
  define r where "r = dropWhile isdigit t"
  from assms have ne: "ds \<noteq> []" and r: "r = [] \<or> r = [CHR 0x0A]"
    by (simp_all add: is_int_def Let_def t_def ds_def r_def)
  have dg: "\<forall>c\<in>set ds. isdigit c" by (auto simp: ds_def dest: set_takeWhileD)
  have t: "t = ds @ r" by (simp add: ds_def r_def)
  have tok: "tok = t \<or> tok = CHR ''-'' # t"
    by (cases tok) (auto simp: t_def)
  from ne dg have h: "\<not> isspace (hd ds)" "\<not> isspace (last ds)"
    by (auto intro!: isdigit_not_space)
  have m: "\<not> isspace (CHR ''-'')" by (simp add: isspace_def)
  have "strip tok = ds \<or> strip tok = CHR ''-'' # ds"
  proof (cases "r = []")
    case True
    with t tok digits_strip [OF ne dg] show ?thesis by auto
  next
    case False
    with r have r': "r = [CHR 0x0A]" by simp
    from strip_trailing_newline [OF ne h] have 1: "strip (ds @ [CHR 0x0A]) = ds" .
    from ne h(2) m have 2: "strip ((CHR ''-'' # ds) @ [CHR 0x0A]) = CHR ''-'' # ds"
      by (intro strip_trailing_newline) auto
    from tok t r' 1 2 show ?thesis by auto
  qed
  with ne dg show ?thesis by blast
qed

lemma py_int_strip: "strip t = strip t' \<Longrightarrow> py_int t = py_int t'"
  by (simp add: py_int_def)

lemma py_int_printable:
  assumes "is_int tok" and "py_int tok = Inr v"
  shows "printable v"
proof -
  from is_int_shape [OF assms(1)] obtain ds where ds: "ds \<noteq> []" "\<forall>c\<in>set ds. isdigit c"
      and st: "strip tok = ds \<or> strip tok = CHR ''-'' # ds"
    by blast
  from st digits_strip [OF ds]
  have "py_int tok = py_int ds \<or> py_int tok = py_int (CHR ''-'' # ds)"
    by (auto intro: py_int_strip)
  with assms(2) digits_py_int [OF ds]
  have le: "length ds \<le> int_max_str_digits" and v: "v = decimal ds \<or> v = - decimal ds"
    by (auto split: if_splits)
  from decimal_bounds [OF ds(2)] v have "\<bar>v\<bar> < 10 ^ length ds" by auto
  also from le have "(10::int) ^ length ds \<le> 10 ^ int_max_str_digits"
    by (intro power_increasing) simp_all
  finally show ?thesis by (simp add: printable_def)
qed


lemma ctor_args_printable:
  "ctor_args toks acc = Inr args \<Longrightarrow> list_all printable acc \<Longrightarrow> list_all printable args"
proof (induction toks arbitrary: acc)
  case Nil
  then show ?case by simp
next
  case (Cons tok toks)
  from Cons.prems(1) obtain v where i: "is_int (strip tok)" and v: "py_int (strip tok) = Inr v"
      and rest: "ctor_args toks (acc @ [v]) = Inr args"
    by (auto split: if_splits sum.splits)
  from py_int_printable [OF i v] Cons.prems(2) have "list_all printable (acc @ [v])" by simp
  from Cons.IH [OF rest this] show ?case .
qed

lemma parse_let_new_printable:
  assumes "parse_let stmt = Inr (x, New c args)"
  shows "list_all printable args"
proof -
  from assms obtain a where "parse_new_args a = Inr args"
    by (auto simp: parse_let_def Let_def split: option.splits if_splits sum.splits)
  then show ?thesis
    by (auto simp: parse_new_args_def split: if_splits dest: ctor_args_printable)
qed

lemma parse_field_assign_printable:
  assumes "parse_field_assign stmt = Inr (p, f, n)"
  shows "printable n"
  using assms
  by (auto simp: parse_field_assign_def split: option.splits if_splits sum.splits
           intro: py_int_printable)

lemma update_values: "snd ` set (AList.update k v al) \<subseteq> insert v (snd ` set al)"
  by (induction al) auto

lemma fold_update_values:
  "snd ` set (fold (\<lambda>(k, v). AList.update k v) ps d) \<subseteq> snd ` set d \<union> snd ` set ps"
proof (induction ps arbitrary: d)
  case Nil
  then show ?case by simp
next
  case (Cons p ps)
  obtain k v where p: "p = (k, v)" by (cases p)
  from Cons.IH [of "AList.update k v d"] update_values [of k v d] p show ?case by auto
qed

lemma dict_of_values: "snd ` set (dict_of ps) \<subseteq> snd ` set ps"
  using fold_update_values [of ps "[]"] by (simp add: dict_of_def)

lemma fields_printable_update:
  "fields_printable fs \<Longrightarrow> printable v \<Longrightarrow> fields_printable (AList.update k v fs)"
  using update_values [of k v fs] unfolding fields_printable_def by blast

lemma fields_printable_dict_of:
  assumes "list_all printable args"
  shows "fields_printable (dict_of (zip fs args))"
proof -
  have "snd ` set (zip fs args) \<subseteq> set args" by (auto dest: set_zip_rightD)
  with dict_of_values [of "zip fs args"]
  have "snd ` set (dict_of (zip fs args)) \<subseteq> set args" by (rule subset_trans)
  with assms show ?thesis unfolding fields_printable_def list_all_iff by blast
qed

lemma fields_printable_lookup:
  "fields_printable fs \<Longrightarrow> map_of fs k = Some v \<Longrightarrow> printable v"
  unfolding fields_printable_def by (force dest: map_of_SomeD)

lemma instantiate_values:
  assumes "instantiate c args s = Some (Inr (r, s'))" and "list_all printable args"
  shows "\<exists>obj. r = next_ref s \<and> fields_printable (inst_fields obj)
           \<and> s' = s\<lparr>heap := (heap s)(next_ref s := obj), next_ref := Suc (next_ref s)\<rparr>"
proof -
  from assms(1) obtain k where k: "classes s c = Some k"
    by (cases "classes s c") (simp_all add: instantiate_def)
  with assms(1) obtain fs where fs: "all_fields (class_objs s) k = Some fs"
    by (cases "all_fields (class_objs s) k") (simp_all add: instantiate_def)
  from assms(1) k fs
  have a: "(r, s') = alloc \<lparr>cls = k, inst_fields = dict_of (zip fs args)\<rparr> s"
    by (simp add: instantiate_def split: if_splits)
  let ?obj = "\<lparr>cls = k, inst_fields = dict_of (zip fs args)\<rparr>"
  from a have "r = next_ref s"
    and "s' = s\<lparr>heap := (heap s)(next_ref s := ?obj), next_ref := Suc (next_ref s)\<rparr>"
    by (simp_all add: alloc_def)
  moreover from fields_printable_dict_of [OF assms(2), of fs]
  have "fields_printable (inst_fields ?obj)" by simp
  ultimately show ?thesis by blast
qed

lemma values_printable_bind_new:
  assumes "values_printable s" and "\<forall>y b. env s y = Some b \<longrightarrow> inst b \<noteq> next_ref s"
      and "fields_printable (inst_fields obj)"
  shows "values_printable
           (s\<lparr>heap := (heap s)(next_ref s := obj), next_ref := n,
              env := (env s)(x \<mapsto> \<lparr>inst = next_ref s, view_cls = t\<rparr>)\<rparr>)"
  using assms unfolding values_printable_def by (auto split: if_splits)

lemma exec_let_expr_values:
  assumes "exec_let_expr x e s = Some (Ok s')" and "refs_allocated s" and "values_printable s"
      and "\<forall>c args. e = New c args \<longrightarrow> list_all printable args"
  shows "values_printable s'"
proof -
  have fresh: "inst b \<noteq> next_ref s" if "env s y = Some b" for y b
    using assms(2) that unfolding refs_allocated_def by fastforce
  show ?thesis
  proof (cases e)
    case (New c args)
    with assms(1) obtain r s1 where i: "instantiate c args s = Some (Inr (r, s1))"
        and s': "s' = bind_var x \<lparr>inst = r, view_cls = cls (heap s1 r)\<rparr> s1"
      by (auto split: option.splits sum.splits)
    from assms(4) New have "list_all printable args" by simp
    from instantiate_values [OF i this] obtain obj where
      r: "r = next_ref s" and v: "fields_printable (inst_fields obj)"
      and s1: "s1 = s\<lparr>heap := (heap s)(next_ref s := obj), next_ref := Suc (next_ref s)\<rparr>"
      by blast
    from values_printable_bind_new [OF assms(3) _ v] fresh show ?thesis
      by (simp add: s' bind_var_def r s1)
  next
    case (Clone src)
    with exec_let_expr_Ok [OF assms(1)] obtain b where b: "env s src = Some b"
      and s': "s' = s\<lparr>heap := (heap s)(next_ref s := \<lparr>cls = cls (heap s (inst b)),
                                                      inst_fields = inst_fields (heap s (inst b))\<rparr>),
                     next_ref := Suc (next_ref s),
                     env := (env s)(x \<mapsto> \<lparr>inst = next_ref s, view_cls = view_cls b\<rparr>)\<rparr>"
      by auto
    from assms(3) b have "fields_printable (inst_fields \<lparr>cls = cls (heap s (inst b)),
                                                      inst_fields = inst_fields (heap s (inst b))\<rparr>)"
      by (simp add: values_printable_def)
    from values_printable_bind_new [OF assms(3) _ this] fresh show ?thesis by (simp add: s')
  next
    case (Cast target src)
    with exec_let_expr_Ok [OF assms(1)] assms(3) show ?thesis
      by (auto simp: values_printable_def split: if_splits)
  next
    case (Ref src)
    with exec_let_expr_Ok [OF assms(1)] assms(3) show ?thesis
      by (auto simp: values_printable_def split: if_splits)
  qed
qed

lemma exec_field_assign_values:
  assumes "exec_field_assign stmt s = Some (Ok s')" and "values_printable s"
  shows "values_printable s'"
proof -
  from assms(1) obtain p f n where pr: "parse_field_assign stmt = Inr (p, f, n)"
    by (auto simp: exec_field_assign_def split: sum.splits)
  from exec_field_assign_Ok [OF pr assms(1)] obtain bp where
    "env s p = Some bp \<and> map_of (inst_fields (heap s (inst bp))) f \<noteq> None
       \<and> s' = set_field (inst bp) f n s" ..
  then have s': "s' = set_field (inst bp) f n s" by simp
  have "fields_printable (inst_fields (heap s' r))"
    if "fields_printable (inst_fields (heap s r))" for r
  proof (cases "r = inst bp")
    case True
    with fields_printable_update [OF that parse_field_assign_printable [OF pr], of f]
    show ?thesis by (simp add: s' set_field_simps)
  next
    case False
    with that show ?thesis by (simp add: s' set_field_simps)
  qed
  with assms(2) show ?thesis by (simp add: values_printable_def s' set_field_simps(1))
qed

lemma exec_statement_values:
  assumes "exec_statement st s = Some (Ok s')" and "refs_allocated s" and "values_printable s"
  shows "values_printable s'"
  using exec_statement_cases [OF assms(1)]
proof (elim disjE exE conjE)
  assume "s' = s" with assms(3) show ?thesis by simp
next
  fix x e assume p: "parse_let (strip (split_head '';'' st)) = Inr (x, e)"
    and r: "exec_let_expr x e s = Some (Ok s')"
  from p have "\<forall>c args. e = New c args \<longrightarrow> list_all printable args"
    by (auto dest: parse_let_new_printable)
  from exec_let_expr_values [OF r assms(2,3) this] show ?thesis .
next
  assume "exec_field_assign (strip (split_head '';'' st)) s = Some (Ok s')"
  from exec_field_assign_values [OF this assms(3)] show ?thesis .
next
  assume "exec_call (strip (split_head '';'' st)) s = Some (Ok s')"
  from exec_call_inv [OF this] assms(3) show ?thesis by (simp add: values_printable_def)
next
  assume "exec_is (strip (split_head '';'' st)) s = Some (Ok s')"
  from exec_is_inv [OF this] assms(3) show ?thesis by (simp add: values_printable_def)
qed

lemma run_stmts_values:
  "run_stmts stmts s = Some (Ok s') \<Longrightarrow> refs_allocated s \<Longrightarrow> views_ok s \<Longrightarrow>
   values_printable s \<Longrightarrow> values_printable s'"
proof (induction stmts arbitrary: s)
  case Nil
  then show ?case by simp
next
  case (Cons st stmts)
  from Cons.prems(1) obtain s1 where s1: "exec_statement st s = Some (Ok s1)"
      and rest: "run_stmts stmts s1 = Some (Ok s')"
    by (auto split: option.splits result.splits)
  from exec_statement_inv [OF s1 Cons.prems(2,3)] exec_statement_values [OF s1 Cons.prems(2,4)]
    Cons.IH [OF rest] show ?case by simp
qed

lemma eval_tokens_printable:
  "eval_tokens fs m toks acc = Inr vals \<Longrightarrow> fields_printable fs \<Longrightarrow>
   list_all printable acc \<Longrightarrow> list_all printable vals"
proof (induction toks arbitrary: acc)
  case Nil
  then show ?case by simp
next
  case (Cons tok toks)
  show ?case
  proof (cases "is_int tok")
    case True
    with Cons.prems(1) obtain v where v: "py_int tok = Inr v"
        and rest: "eval_tokens fs m toks (acc @ [v]) = Inr vals"
      by (auto split: sum.splits)
    from py_int_printable [OF True v] Cons.prems(3) have "list_all printable (acc @ [v])" by simp
    from Cons.IH [OF rest Cons.prems(2) this] show ?thesis .
  next
    case False
    with Cons.prems(1) obtain v where v: "map_of fs tok = Some v"
        and rest: "eval_tokens fs m toks (acc @ [v]) = Inr vals"
      by (auto split: option.splits)
    from fields_printable_lookup [OF Cons.prems(2) v] Cons.prems(3)
    have "list_all printable (acc @ [v])" by simp
    from Cons.IH [OF rest Cons.prems(2) this] show ?thesis .
  qed
qed

lemma printed_values_within_limit:
  assumes "env s0 = Map.empty" and "run_stmts pre s0 = Some (Ok s)"
      and "env s x = Some b"
      and "eval_tokens (inst_fields (heap s (inst b))) m toks [] = Inr vals"
  shows "\<forall>v\<in>set vals. length (str_nat (nat \<bar>v\<bar>)) \<le> int_max_str_digits"
proof -
  from assms(1) have "values_printable s0" by (simp add: values_printable_def)
  with empty_env_inv [OF assms(1)] run_stmts_values [OF assms(2)]
  have "values_printable s" by simp
  with assms(3) have "fields_printable (inst_fields (heap s (inst b)))"
    by (simp add: values_printable_def)
  from eval_tokens_printable [OF assms(4) this] have "list_all printable vals" by simp
  then show ?thesis by (auto simp: list_all_iff intro: printable_str)
qed

section \<open>Field layout and construction\<close>

text \<open>
  C6. For a class \<open>c\<close> with a finite chain, \<open>all_fields\<close> returns the own fields of the
  ancestors, root first, followed by the own fields of \<open>c\<close>. A statement
  \<open>let v = new C(args)\<close> succeeds exactly when the number of arguments is the length of
  that list; it then creates one instance of \<open>c\<close>, viewed as \<open>c\<close>, whose dictionary is
  \<open>dict(zip(all_fields, args))\<close>: the field at position \<open>i\<close> holds argument \<open>i\<close> (for a name
  listed twice the last position counts, as the later assignment overwrites the earlier),
  and when no name is listed twice the dictionary is the list of pairs in that order.
\<close>

theorem all_fields_layout:
  assumes "chain_of (class_objs s) c = Some cs"
      and "classes s class_name = Some c"
      and "parse_let stmt = Inr (v, New class_name args)"
      and "fs = concat (map (\<lambda>r. own_fields (class_objs s r)) (rev (tl cs))) @ own_fields (class_objs s c)"
  shows "all_fields (class_objs s) c = Some fs
       \<and> (length args \<noteq> length fs \<longrightarrow>
            exec_let stmt s = Some (Raise (ArityMismatch class_name (length fs) (length args)) s))
       \<and> (length args = length fs \<longrightarrow>
            exec_let stmt s =
              Some (Ok (s\<lparr>heap := (heap s)(next_ref s := \<lparr>cls = c, inst_fields = dict_of (zip fs args)\<rparr>),
                          next_ref := Suc (next_ref s),
                          env := (env s)(v \<mapsto> \<lparr>inst = next_ref s, view_cls = c\<rparr>)\<rparr>))
          \<and> (\<forall>i<length fs. fs ! i \<notin> set (drop (Suc i) fs) \<longrightarrow>
                 map_of (dict_of (zip fs args)) (fs ! i) = Some (args ! i))
          \<and> (distinct fs \<longrightarrow> dict_of (zip fs args) = zip fs args))"
proof -
  from chain_of_hd [OF assms(1)] obtain anc where cs: "cs = c # anc" by blast
  have af: "all_fields (class_objs s) c = Some fs"
    using all_fields_chain [OF assms(1)] assms(4) cs by simp
  have bad: "exec_let stmt s = Some (Raise (ArityMismatch class_name (length fs) (length args)) s)"
    if "length args \<noteq> length fs"
    using that af assms(2,3) by (auto simp: exec_let_def instantiate_def)
  have good: "exec_let stmt s =
      Some (Ok (s\<lparr>heap := (heap s)(next_ref s := \<lparr>cls = c, inst_fields = dict_of (zip fs args)\<rparr>),
                  next_ref := Suc (next_ref s),
                  env := (env s)(v \<mapsto> \<lparr>inst = next_ref s, view_cls = c\<rparr>)\<rparr>))"
    if "length args = length fs"
    using that af assms(2,3) by (simp add: exec_let_def instantiate_def alloc_def bind_var_def)
  have pos: "map_of (dict_of (zip fs args)) (fs ! i) = Some (args ! i)"
    if "length args = length fs" "i < length fs" "fs ! i \<notin> set (drop (Suc i) fs)" for i
    using that by (simp add: map_of_dict_of map_of_rev_zip_positional)
  have dis: "dict_of (zip fs args) = zip fs args" if "length args = length fs" "distinct fs"
    using that by (simp add: dict_of_distinct)
  from af bad good pos dis show ?thesis by blast
qed

theorem all_fields_layout_witness:
  "chain_of (class_objs demo) 1 = Some [1, 0]
   \<and> classes demo ''B'' = Some 1
   \<and> parse_let ''let x = new B(1, 2)'' = Inr (''x'', New ''B'' [1, 2])
   \<and> all_fields (class_objs demo) 1 = Some [''a'', ''b'']
   \<and> exec_let ''let x = new B(1, 2)'' demo =
       Some (Ok (demo\<lparr>heap := (heap demo)(0 := \<lparr>cls = 1, inst_fields = [(''a'', 1), (''b'', 2)]\<rparr>),
                      next_ref := 1,
                      env := [''x'' \<mapsto> \<lparr>inst = 0, view_cls = 1\<rparr>]\<rparr>))
   \<and> exec_let ''let x = new B(1)'' demo = Some (Raise (ArityMismatch ''B'' 2 1) demo)"
proof -
  have h1: "chain_of (class_objs demo) 1 = Some [1, 0]"
    by (simp add: chain_of.simps demo_def class_A_def class_B_def)
  have h2: "classes demo ''B'' = Some 1" by (simp add: demo_def)
  have h3: "parse_let ''let x = new B(1, 2)'' = Inr (''x'', New ''B'' [1, 2])" by code_simp
  have h3': "parse_let ''let x = new B(1)'' = Inr (''x'', New ''B'' [1])" by code_simp
  have h4: "[''a'', ''b''] = concat (map (\<lambda>r. own_fields (class_objs demo r)) (rev (tl [1, 0])))
              @ own_fields (class_objs demo 1)"
    by (simp add: demo_def class_A_def class_B_def)
  have nr: "next_ref demo = 0" "env demo = Map.empty" by (simp_all add: demo_def)
  show ?thesis
    using h1 h2 h3 all_fields_layout [OF h1 h2 h3 h4] all_fields_layout [OF h1 h2 h3' h4]
    by (simp add: nr dict_of_def)
qed


section \<open>Constructor arity\<close>



section \<open>Cast\<close>

text \<open>
  C3. For \<open>let v = cast<T> source\<close> with \<open>source\<close> bound and \<open>T\<close> declared, where the
  runtime class of the source instance has a finite chain: \<open>is_subclass_of\<close> holds exactly
  when \<open>T\<close> is on that chain. If it is, the statement binds \<open>v\<close> to the same instance
  reference with view class \<open>T\<close> and changes nothing else (no object is created). If it
  is not, the statement raises the cast error in the unchanged state. A target that is a
  proper descendant of the runtime class is never on the chain.
\<close>

theorem cast_upcast_only:
  assumes "parse_let stmt = Inr (v, Cast target src)"
      and "env s src = Some b"
      and "classes s target = Some t"
      and "chain_of (class_objs s) (cls (heap s (inst b))) = Some cs"
  shows "is_subclass_of (class_objs s) (cls (heap s (inst b))) t = Some (t \<in> set cs)
       \<and> (t \<in> set cs \<longrightarrow>
            exec_let stmt s = Some (Ok (s\<lparr>env := (env s)(v \<mapsto> \<lparr>inst = inst b, view_cls = t\<rparr>)\<rparr>)))
       \<and> (t \<notin> set cs \<longrightarrow>
            exec_let stmt s =
              Some (Raise (InvalidCast (name (class_objs s (cls (heap s (inst b)))))
                                       (name (class_objs s t))) s))
       \<and> (\<forall>ts. chain_of (class_objs s) t = Some ts \<and> cls (heap s (inst b)) \<in> set ts
                 \<and> t \<noteq> cls (heap s (inst b)) \<longrightarrow> t \<notin> set cs)"
proof -
  have sub: "is_subclass_of (class_objs s) (cls (heap s (inst b))) t = Some (t \<in> set cs)"
    by (rule is_subclass_chain [OF assms(4)])
  have ok: "exec_let stmt s = Some (Ok (s\<lparr>env := (env s)(v \<mapsto> \<lparr>inst = inst b, view_cls = t\<rparr>)\<rparr>))"
    if "t \<in> set cs"
    using that sub assms(1-3)
    by (simp add: exec_let_def get_binding_def cast_binding_def bind_var_def)
  have bad: "exec_let stmt s =
      Some (Raise (InvalidCast (name (class_objs s (cls (heap s (inst b)))))
                               (name (class_objs s t))) s)"
    if "t \<notin> set cs"
    using that sub assms(1-3)
    by (simp add: exec_let_def get_binding_def cast_binding_def)
  have derived: "t \<notin> set cs"
    if "chain_of (class_objs s) t = Some ts" "cls (heap s (inst b)) \<in> set ts"
       "t \<noteq> cls (heap s (inst b))" for ts
    using chain_of_antisym [OF assms(4) that(1) _ that(2)] that(3) by auto
  from sub ok bad derived show ?thesis by blast
qed

theorem cast_upcast_only_witness:
  "parse_let ''let y = cast<A> x'' = Inr (''y'', Cast ''A'' ''x'')
   \<and> env demo_B ''x'' = Some \<lparr>inst = 0, view_cls = 1\<rparr>
   \<and> classes demo_B ''A'' = Some 0
   \<and> chain_of (class_objs demo_B) (cls (heap demo_B 0)) = Some [1, 0]
   \<and> exec_let ''let y = cast<A> x'' demo_B =
       Some (Ok (demo_B\<lparr>env := (env demo_B)(''y'' \<mapsto> \<lparr>inst = 0, view_cls = 0\<rparr>)\<rparr>))
   \<and> parse_let ''let y = cast<B> x'' = Inr (''y'', Cast ''B'' ''x'')
   \<and> env demo_A ''x'' = Some \<lparr>inst = 0, view_cls = 0\<rparr>
   \<and> classes demo_A ''B'' = Some 1
   \<and> chain_of (class_objs demo_A) (cls (heap demo_A 0)) = Some [0]
   \<and> exec_let ''let y = cast<B> x'' demo_A = Some (Raise (InvalidCast ''A'' ''B'') demo_A)"
proof -
  let ?bB = "\<lparr>inst = 0, view_cls = 1\<rparr>" and ?bA = "\<lparr>inst = 0, view_cls = 0\<rparr>"
  have p1: "parse_let ''let y = cast<A> x'' = Inr (''y'', Cast ''A'' ''x'')" by code_simp
  have e1: "env demo_B ''x'' = Some ?bB" by (simp add: demo_B_def)
  have c1: "classes demo_B ''A'' = Some 0" by (simp add: demo_B_def demo_def)
  have k1: "chain_of (class_objs demo_B) (cls (heap demo_B (inst ?bB))) = Some [1, 0]"
    by (simp add: chain_of.simps demo_B_def demo_def class_A_def class_B_def)
  have p2: "parse_let ''let y = cast<B> x'' = Inr (''y'', Cast ''B'' ''x'')" by code_simp
  have e2: "env demo_A ''x'' = Some ?bA" by (simp add: demo_A_def)
  have c2: "classes demo_A ''B'' = Some 1" by (simp add: demo_A_def demo_def)
  have k2: "chain_of (class_objs demo_A) (cls (heap demo_A (inst ?bA))) = Some [0]"
    by (simp add: chain_of.simps demo_A_def demo_def class_A_def class_B_def)
  have n: "name (class_objs demo_A (cls (heap demo_A 0))) = ''A''" "name (class_objs demo_A 1) = ''B''"
    by (simp_all add: demo_A_def demo_def class_A_def class_B_def)
  show ?thesis
    using p1 e1 c1 k1 p2 e2 c2 k2 n
      cast_upcast_only [OF p1 e1 c1 k1] cast_upcast_only [OF p2 e2 c2 k2]
    by simp
qed

section \<open>Field assignment\<close>

text \<open>
  C9, as the code has it. \<open>_exec_field_assign\<close> checks and converts the right-hand side
  before it looks the variable up: when the text after the first \<open>=\<close> is no integer literal
  the statement raises the literal error, and when it is a literal that \<open>int\<close> refuses the
  statement raises the error of \<open>int\<close>, bound variable or not. With an integer literal on
  the right that \<open>int\<close> converts, an unbound name raises the unknown-variable error; for a bound name the field is looked
  up in the dictionary of the instance (the binding's view class plays no part) and its
  absence raises the unknown-field error; otherwise the value is stored under that field
  in the instance and nothing else changes.
\<close>

theorem field_assign_checks:
  "(\<forall>left right. split_once ''='' stmt = Some (left, right) \<and> \<not> is_int (strip right) \<longrightarrow>
        exec_field_assign stmt s = Some (Raise InvalidFieldValue s))
   \<and> (\<forall>left right e. split_once ''='' stmt = Some (left, right) \<and> is_int (strip right)
         \<and> py_int (strip right) = Inl e \<longrightarrow>
        exec_field_assign stmt s = Some (Raise e s))
   \<and> (parse_field_assign stmt = Inr (var_name, field_name, v) \<longrightarrow>
        (env s var_name = None \<longrightarrow>
           exec_field_assign stmt s = Some (Raise (UnknownVariable var_name) s))
      \<and> (\<forall>b. env s var_name = Some b \<longrightarrow>
           (map_of (inst_fields (heap s (inst b))) field_name = None \<longrightarrow>
              exec_field_assign stmt s =
                Some (Raise (UnknownField field_name
                               (name (class_objs s (cls (heap s (inst b)))))) s))
         \<and> (map_of (inst_fields (heap s (inst b))) field_name \<noteq> None \<longrightarrow>
              exec_field_assign stmt s =
                Some (Ok (s\<lparr>heap := (heap s)(inst b := (heap s (inst b))
                            \<lparr>inst_fields := AList.update field_name v (inst_fields (heap s (inst b)))\<rparr>)\<rparr>))
            \<and> map_of (AList.update field_name v (inst_fields (heap s (inst b)))) field_name = Some v)))"
  by (auto simp: exec_field_assign_def parse_field_assign_def get_binding_def set_field_def
        update_conv' split: option.splits)

theorem field_assign_checks_witness:
  "parse_field_assign ''x.b = 7'' = Inr (''x'', ''b'', 7)
   \<and> env demo_cast ''x'' = Some \<lparr>inst = 0, view_cls = 1\<rparr>
   \<and> map_of (inst_fields (heap demo_cast 0)) ''b'' \<noteq> None
   \<and> exec_field_assign ''x.b = 7'' demo_cast =
       Some (Ok (demo_cast\<lparr>heap := (heap demo_cast)(0 := \<lparr>cls = 1, inst_fields = [(''a'', 1), (''b'', 7)]\<rparr>)\<rparr>))
   \<and> parse_field_assign ''zz.b = 7'' = Inr (''zz'', ''b'', 7)
   \<and> env demo_cast ''zz'' = None
   \<and> exec_field_assign ''zz.b = 7'' demo_cast = Some (Raise (UnknownVariable ''zz'') demo_cast)
   \<and> parse_field_assign ''y.c = 7'' = Inr (''y'', ''c'', 7)
   \<and> exec_field_assign ''y.c = 7'' demo_cast = Some (Raise (UnknownField ''c'' ''B'') demo_cast)
   \<and> split_once ''='' ''x.b = q'' = Some (''x.b '', '' q'')
   \<and> exec_field_assign ''x.b = q'' demo_cast = Some (Raise InvalidFieldValue demo_cast)"
proof -
  have p1: "parse_field_assign ''x.b = 7'' = Inr (''x'', ''b'', 7)" by code_simp
  have p2: "parse_field_assign ''zz.b = 7'' = Inr (''zz'', ''b'', 7)" by code_simp
  have p3: "parse_field_assign ''y.c = 7'' = Inr (''y'', ''c'', 7)" by code_simp
  have p4: "split_once ''='' ''x.b = q'' = Some (''x.b '', '' q'')" by code_simp
  have p5: "\<not> is_int (strip '' q'')" by code_simp
  have e: "env demo_cast ''x'' = Some \<lparr>inst = 0, view_cls = 1\<rparr>"
          "env demo_cast ''y'' = Some \<lparr>inst = 0, view_cls = 0\<rparr>"
          "env demo_cast ''zz'' = None"
    by (simp_all add: demo_cast_def demo_B_def demo_def)
  have h: "heap demo_cast 0 = \<lparr>cls = 1, inst_fields = [(''a'', 1), (''b'', 2)]\<rparr>"
    by (simp add: demo_cast_def demo_B_def)
  have n: "name (class_objs demo_cast 1) = ''B''"
    by (simp add: demo_cast_def demo_B_def demo_def class_B_def)
  show ?thesis
    using p1 p2 p3 p4 p5 e h n
      field_assign_checks [of "''x.b = 7''" demo_cast "''x''" "''b''" 7]
      field_assign_checks [of "''zz.b = 7''" demo_cast "''zz''" "''b''" 7]
      field_assign_checks [of "''y.c = 7''" demo_cast "''y''" "''c''" 7]
      field_assign_checks [of "''x.b = q''" demo_cast]
    by simp
qed

text \<open>
  The variable \<open>zz\<close> is unbound and the right-hand side \<open>abc\<close> is no integer literal: the
  statement raises the literal error, not the unknown-variable error.
\<close>

theorem field_assign_order_counterexample:
  "env demo ''zz'' = None
   \<and> exec_field_assign ''zz.f = abc'' demo = Some (Raise InvalidFieldValue demo)
   \<and> exec_field_assign ''zz.f = abc'' demo \<noteq> Some (Raise (UnknownVariable ''zz'') demo)"
proof -
  have p: "parse_field_assign ''zz.f = abc'' = Inl InvalidFieldValue" by code_simp
  have e: "env demo ''zz'' = None" by (simp add: demo_def)
  from p e show ?thesis by (simp add: exec_field_assign_def)
qed

section \<open>Type test\<close>

text \<open>
  C2. On every statement that contains \<open>" is "\<close> (the condition under which the dispatcher
  calls it) \<open>_exec_is\<close> finds a variable name and a class name; the dispatcher passes it
  every such statement that does not begin with \<open>let\<close> or \<open>call\<close> followed by a space and
  does not hold both a dot and an equals sign, which are the marks of the other forms. If the variable is unbound
  or the class undeclared it prints \<open>ISN'T\<close> and returns normally. Otherwise, the runtime
  class of the instance having a finite chain, it prints \<open>IS\<close> exactly when the named
  class is on the chain of the runtime class; the binding's view class plays no part. In
  the sample, the instance of \<open>B\<close> viewed as \<open>A\<close> reports \<open>IS\<close> for \<open>is B\<close>.
\<close>

theorem is_test_runtime_class:
  assumes "contains '' is '' stmt"
  shows "\<exists>var_name cls_name. parse_is stmt = Some (var_name, cls_name)
       \<and> (env s var_name = None \<or> classes s cls_name = None \<longrightarrow>
            exec_is stmt s = Some (Ok (print ''ISN'T'' s)))
       \<and> (\<forall>b c cs. env s var_name = Some b \<and> classes s cls_name = Some c
              \<and> chain_of (class_objs s) (cls (heap s (inst b))) = Some cs \<longrightarrow>
            is_subclass_of (class_objs s) (cls (heap s (inst b))) c = Some (c \<in> set cs)
          \<and> exec_is stmt s = Some (Ok (print (if c \<in> set cs then ''IS'' else ''ISN'T'') s)))
       \<and> (\<forall>st. stmt = strip (split_head '';'' st) \<and> \<not> startswith stmt ''let ''
              \<and> \<not> (contains ''.'' stmt \<and> contains ''='' stmt)
              \<and> \<not> startswith stmt ''call '' \<longrightarrow>
            exec_statement st s = exec_is stmt s)"
proof -
  from contains_split_once [OF assms] obtain a b where ab: "split_once '' is '' stmt = Some (a, b)"
    by blast
  then have p: "parse_is stmt = Some (strip a, strip b)" by (simp add: parse_is_def)
  from assms have ne: "stmt \<noteq> []" by (cases stmt) auto
  show ?thesis
  proof (intro exI conjI allI impI)
    fix st
    assume "stmt = strip (split_head '';'' st) \<and> \<not> startswith stmt ''let ''
              \<and> \<not> (contains ''.'' stmt \<and> contains ''='' stmt)
              \<and> \<not> startswith stmt ''call ''"
    with assms ne show "exec_statement st s = exec_is stmt s"
      by (auto simp: exec_statement_def Let_def)
  next
    show "parse_is stmt = Some (strip a, strip b)" by (rule p)
  next
    assume "env s (strip a) = None \<or> classes s (strip b) = None"
    then show "exec_is stmt s = Some (Ok (print ''ISN'T'' s))"
      using p by (auto simp: exec_is_def split: option.splits)
  next
    fix bd c cs
    assume h: "env s (strip a) = Some bd \<and> classes s (strip b) = Some c
        \<and> chain_of (class_objs s) (cls (heap s (inst bd))) = Some cs"
    then show sub: "is_subclass_of (class_objs s) (cls (heap s (inst bd))) c = Some (c \<in> set cs)"
      by (simp add: is_subclass_chain)
    from h sub p show "exec_is stmt s = Some (Ok (print (if c \<in> set cs then ''IS'' else ''ISN'T'') s))"
      by (simp add: exec_is_def)
  qed
qed


theorem is_test_runtime_class_witness:
  "contains '' is '' ''y is B''
   \<and> env demo_cast ''y'' = Some \<lparr>inst = 0, view_cls = 0\<rparr>
   \<and> classes demo_cast ''B'' = Some 1
   \<and> chain_of (class_objs demo_cast) (cls (heap demo_cast 0)) = Some [1, 0]
   \<and> exec_is ''y is B'' demo_cast = Some (Ok (print ''IS'' demo_cast))
   \<and> contains '' is '' ''q is B''
   \<and> env demo_cast ''q'' = None
   \<and> exec_is ''q is B'' demo_cast = Some (Ok (print ''ISN'T'' demo_cast))"
proof -
  have c1: "contains '' is '' ''y is B''" by code_simp
  have c2: "contains '' is '' ''q is B''" by code_simp
  have p1: "parse_is ''y is B'' = Some (''y'', ''B'')" by code_simp
  have p2: "parse_is ''q is B'' = Some (''q'', ''B'')" by code_simp
  have e: "env demo_cast ''y'' = Some \<lparr>inst = 0, view_cls = 0\<rparr>" "env demo_cast ''q'' = None"
          "classes demo_cast ''B'' = Some 1"
    by (simp_all add: demo_cast_def demo_B_def demo_def)
  have k: "chain_of (class_objs demo_cast) (cls (heap demo_cast 0)) = Some [1, 0]"
    by (simp add: chain_of.simps demo_cast_def demo_B_def demo_def class_A_def class_B_def)
  from is_test_runtime_class [OF c1, of demo_cast] p1 e k
  have r1: "exec_is ''y is B'' demo_cast = Some (Ok (print ''IS'' demo_cast))" by force
  from is_test_runtime_class [OF c2, of demo_cast] p2 e
  have r2: "exec_is ''q is B'' demo_cast = Some (Ok (print ''ISN'T'' demo_cast))" by force
  from c1 c2 e k r1 r2 show ?thesis by simp
qed

section \<open>Method call\<close>



section \<open>Aliasing\<close>

text \<open>
  C4. Let \<open>let x = y\<close> or \<open>let x = cast<T> y\<close> be given. An unbound \<open>y\<close> raises the
  unknown-variable error in the unchanged state, and a plain reference to a bound \<open>y\<close>
  binds \<open>x\<close> to the very binding of \<open>y\<close> (same instance, same view class). Whenever the
  statement succeeds, \<open>x\<close> and \<open>y\<close> refer to the same instance reference afterwards and no
  object was copied. A field assignment that then succeeds through either name leaves the
  environment alone, and the other name sees it: the instance read through the other
  binding holds the assigned value under that field, the line of the final dump is the
  same through both bindings, and a call through the other name of a method whose body is
  that field prints the assigned value.
\<close>

theorem alias_shares_instance:
  assumes "parse_let stmt = Inr (x, e)" and "e = Ref y \<or> e = Cast target y"
  shows "(env s y = None \<longrightarrow> exec_let stmt s = Some (Raise (UnknownVariable y) s))
   \<and> (\<forall>b. e = Ref y \<and> env s y = Some b \<longrightarrow>
          exec_let stmt s = Some (Ok (s\<lparr>env := (env s)(x \<mapsto> b)\<rparr>)))
   \<and> (\<forall>s1. exec_let stmt s = Some (Ok s1) \<longrightarrow>
        (\<exists>b bx by1. env s y = Some b \<and> env s1 x = Some bx \<and> env s1 y = Some by1
            \<and> inst bx = inst b \<and> inst by1 = inst b \<and> heap s1 = heap s
            \<and> (e = Ref y \<longrightarrow> view_cls bx = view_cls b)
            \<and> (\<forall>stmt2 p q f n bp bq s2.
                  parse_field_assign stmt2 = Inr (p, f, n)
                  \<and> ((p = x \<and> q = y) \<or> (p = y \<and> q = x))
                  \<and> env s1 p = Some bp \<and> env s1 q = Some bq
                  \<and> exec_field_assign stmt2 s1 = Some (Ok s2) \<longrightarrow>
                     env s2 = env s1
                   \<and> heap s2 (inst bq) = heap s2 (inst bp)
                   \<and> map_of (inst_fields (heap s2 (inst bq))) f = Some n
                   \<and> dump_fields bq s2 = dump_fields bp s2
                   \<and> (\<forall>stmt3 m. parse_call stmt3 = Some (q, m)
                         \<and> lookup_method (class_objs s2) (view_cls bq) m = Some (Some [f])
                         \<and> \<not> is_int f \<longrightarrow>
                         exec_call stmt3 s2 = Some (Ok (print (str_int n) s2))))))"
proof (intro conjI allI impI)
  assume "env s y = None"
  with assms show "exec_let stmt s = Some (Raise (UnknownVariable y) s)"
    by (auto simp: exec_let_def get_binding_def)
next
  fix b assume "e = Ref y \<and> env s y = Some b"
  with assms show "exec_let stmt s = Some (Ok (s\<lparr>env := (env s)(x \<mapsto> b)\<rparr>))"
    by (simp add: exec_let_def get_binding_def bind_var_def binding_eta)
next
  fix s1 assume ok: "exec_let stmt s = Some (Ok s1)"
  from exec_let_alias_Ok [OF assms ok] obtain b bx where
    b: "env s y = Some b" "s1 = s\<lparr>env := (env s)(x \<mapsto> bx)\<rparr>" "inst bx = inst b"
       "e = Ref y \<longrightarrow> view_cls bx = view_cls b"
    by blast
  define by1 where "by1 = (if y = x then bx else b)"
  have e1: "env s1 x = Some bx" "env s1 y = Some by1" "inst by1 = inst b" "heap s1 = heap s"
    using b by (simp_all add: by1_def)
  have obs: "env s2 = env s1
       \<and> heap s2 (inst bq) = heap s2 (inst bp)
       \<and> map_of (inst_fields (heap s2 (inst bq))) f = Some n
       \<and> dump_fields bq s2 = dump_fields bp s2
       \<and> (\<forall>stmt3 m. parse_call stmt3 = Some (q, m)
             \<and> lookup_method (class_objs s2) (view_cls bq) m = Some (Some [f])
             \<and> \<not> is_int f \<longrightarrow>
             exec_call stmt3 s2 = Some (Ok (print (str_int n) s2)))"
    if h: "parse_field_assign stmt2 = Inr (p, f, n)
           \<and> ((p = x \<and> q = y) \<or> (p = y \<and> q = x))
           \<and> env s1 p = Some bp \<and> env s1 q = Some bq
           \<and> exec_field_assign stmt2 s1 = Some (Ok s2)"
    for stmt2 p q f n bp bq s2
  proof -
    from h exec_field_assign_Ok [of stmt2 p f n s1 s2]
    have s2: "s2 = set_field (inst bp) f n s1" by auto
    from h e1 b(3) have same: "inst bq = inst bp" by auto
    have env2: "env s2 = env s1" by (simp add: s2 set_field_simps)
    have rd: "map_of (inst_fields (heap s2 (inst bq))) f = Some n"
      by (simp add: s2 same set_field_simps update_conv')
    have dump: "dump_fields bq s2 = dump_fields bp s2" by (simp add: dump_fields_def same)
    have call: "exec_call stmt3 s2 = Some (Ok (print (str_int n) s2))"
      if c: "parse_call stmt3 = Some (q, m)
             \<and> lookup_method (class_objs s2) (view_cls bq) m = Some (Some [f]) \<and> \<not> is_int f"
      for stmt3 m
      using c h rd env2 by (simp add: exec_call_def get_binding_def)
    have hp: "heap s2 (inst bq) = heap s2 (inst bp)" by (simp add: same)
    from env2 hp rd dump call show ?thesis by blast
  qed
  from b(1) e1 b(3,4) obs
  show "\<exists>b bx by1. env s y = Some b \<and> env s1 x = Some bx \<and> env s1 y = Some by1
            \<and> inst bx = inst b \<and> inst by1 = inst b \<and> heap s1 = heap s
            \<and> (e = Ref y \<longrightarrow> view_cls bx = view_cls b)
            \<and> (\<forall>stmt2 p q f n bp bq s2.
                  parse_field_assign stmt2 = Inr (p, f, n)
                  \<and> ((p = x \<and> q = y) \<or> (p = y \<and> q = x))
                  \<and> env s1 p = Some bp \<and> env s1 q = Some bq
                  \<and> exec_field_assign stmt2 s1 = Some (Ok s2) \<longrightarrow>
                     env s2 = env s1
                   \<and> heap s2 (inst bq) = heap s2 (inst bp)
                   \<and> map_of (inst_fields (heap s2 (inst bq))) f = Some n
                   \<and> dump_fields bq s2 = dump_fields bp s2
                   \<and> (\<forall>stmt3 m. parse_call stmt3 = Some (q, m)
                         \<and> lookup_method (class_objs s2) (view_cls bq) m = Some (Some [f])
                         \<and> \<not> is_int f \<longrightarrow>
                         exec_call stmt3 s2 = Some (Ok (print (str_int n) s2))))"
    by blast
qed


theorem alias_shares_instance_witness:
  "parse_let ''let y = x'' = Inr (''y'', Ref ''x'')
   \<and> env demo_B ''x'' = Some \<lparr>inst = 0, view_cls = 1\<rparr>
   \<and> exec_let ''let y = x'' demo_B = Some (Ok demo_ref)
   \<and> parse_field_assign ''y.b = 7'' = Inr (''y'', ''b'', 7)
   \<and> exec_field_assign ''y.b = 7'' demo_ref = Some (Ok (set_field 0 ''b'' 7 demo_ref))
   \<and> parse_call ''call x.show'' = Some (''x'', ''show'')
   \<and> exec_call ''call x.show'' (set_field 0 ''b'' 7 demo_ref) =
        Some (Ok (print ''7'' (set_field 0 ''b'' 7 demo_ref)))
   \<and> dump_fields \<lparr>inst = 0, view_cls = 1\<rparr> (set_field 0 ''b'' 7 demo_ref) = ''  fields       : a=1, b=7''
   \<and> parse_let ''let y = q'' = Inr (''y'', Ref ''q'')
   \<and> env demo_B ''q'' = None
   \<and> exec_let ''let y = q'' demo_B = Some (Raise (UnknownVariable ''q'') demo_B)"
proof -
  let ?b = "\<lparr>inst = 0, view_cls = 1\<rparr>"
  let ?s2 = "set_field 0 ''b'' 7 demo_ref"
  have p1: "parse_let ''let y = x'' = Inr (''y'', Ref ''x'')" by code_simp
  have p2: "parse_let ''let y = q'' = Inr (''y'', Ref ''q'')" by code_simp
  have p3: "parse_field_assign ''y.b = 7'' = Inr (''y'', ''b'', 7)" by code_simp
  have p4: "parse_call ''call x.show'' = Some (''x'', ''show'')" by code_simp
  have e: "env demo_B ''x'' = Some ?b" "env demo_B ''q'' = None" by (simp_all add: demo_B_def demo_def)
  have e1: "env demo_ref ''x'' = Some ?b" "env demo_ref ''y'' = Some ?b"
    by (simp_all add: demo_ref_def demo_B_def)
  have h: "heap demo_ref 0 = \<lparr>cls = 1, inst_fields = [(''a'', 1), (''b'', 2)]\<rparr>"
    by (simp add: demo_ref_def demo_B_def)
  note T1 = alias_shares_instance [OF p1 disjI1 [OF refl], of demo_B]
  note T2 = alias_shares_instance [OF p2 disjI1 [OF refl], of demo_B]
  from T1 e have r1: "exec_let ''let y = x'' demo_B = Some (Ok demo_ref)"
    by (simp add: demo_ref_def)
  from T2 e have r2: "exec_let ''let y = q'' demo_B = Some (Raise (UnknownVariable ''q'') demo_B)"
    by simp
  have fa: "exec_field_assign ''y.b = 7'' demo_ref = Some (Ok ?s2)"
    by (simp add: exec_field_assign_def p3 get_binding_def e1 h)
  have ni: "\<not> is_int ''b''" by code_simp
  have lk: "lookup_method (class_objs ?s2) (view_cls ?b) ''show'' = Some (Some [''b''])"
    by (simp add: lookup_method_def lookup_loop.simps set_field_def demo_ref_def demo_B_def
          demo_def class_B_def)
  have s7: "str_int 7 = ''7''" by (simp add: str_int_def str_nat.simps digit_char_def)
  from T1 [THEN conjunct2, THEN conjunct2, rule_format, OF r1]
  obtain b bx by1 where obs:
    "\<And>stmt2 p q f n bp bq s2 stmt3 m.
        parse_field_assign stmt2 = Inr (p, f, n) \<Longrightarrow> (p = ''y'' \<and> q = ''x'') \<or> (p = ''x'' \<and> q = ''y'') \<Longrightarrow>
        env demo_ref p = Some bp \<Longrightarrow> env demo_ref q = Some bq \<Longrightarrow>
        exec_field_assign stmt2 demo_ref = Some (Ok s2) \<Longrightarrow>
        parse_call stmt3 = Some (q, m) \<Longrightarrow>
        lookup_method (class_objs s2) (view_cls bq) m = Some (Some [f]) \<Longrightarrow> \<not> is_int f \<Longrightarrow>
        exec_call stmt3 s2 = Some (Ok (print (str_int n) s2))"
    by blast
  from obs [OF p3 _ e1(2) e1(1) fa p4 lk ni] s7
  have r3: "exec_call ''call x.show'' ?s2 = Some (Ok (print ''7'' ?s2))" by simp
  have d: "dump_fields ?b ?s2 = ''  fields       : a=1, b=7''"
    by (simp add: dump_fields_def fields_str_def set_field_def h str_int_def str_nat.simps digit_char_def)
  from p1 p2 p3 p4 e r1 r2 fa r3 d show ?thesis by simp
qed


section \<open>Clone\<close>

text \<open>
  C5. In a state \<open>s\<close> reached by running statements from an empty environment, let
  \<open>let v = clone src\<close> be given. An unbound \<open>src\<close> raises the unknown-variable error in the
  unchanged state. For \<open>src\<close> bound to \<open>b\<close> the statement succeeds: \<open>v\<close> is bound to the
  new reference \<open>next_ref s\<close> with the view class of \<open>b\<close>; the new reference is not the
  one of \<open>b\<close>; the new object has the runtime class and the field dictionary of the
  source instance; every other object is as before. A following field assignment through
  a binding of the clone leaves the source instance as it was, and one through a binding
  of the source instance leaves the clone as it was. In any state at all, a successful
  field assignment changes no object but the one its variable refers to.
\<close>

theorem clone_is_independent:
  assumes "env s0 = Map.empty" and "run_stmts pre s0 = Some (Ok s)"
      and "parse_let stmt = Inr (v, Clone src)"
  shows "(env s src = None \<longrightarrow> exec_let stmt s = Some (Raise (UnknownVariable src) s))
   \<and> (\<forall>b. env s src = Some b \<longrightarrow>
        (\<exists>s1. exec_let stmt s = Some (Ok s1)
           \<and> env s1 = (env s)(v \<mapsto> \<lparr>inst = next_ref s, view_cls = view_cls b\<rparr>)
           \<and> next_ref s \<noteq> inst b
           \<and> cls (heap s1 (next_ref s)) = cls (heap s (inst b))
           \<and> inst_fields (heap s1 (next_ref s)) = inst_fields (heap s (inst b))
           \<and> (\<forall>r. r \<noteq> next_ref s \<longrightarrow> heap s1 r = heap s r)
           \<and> (\<forall>stmt2 p f n bp s2.
                 parse_field_assign stmt2 = Inr (p, f, n) \<and> env s1 p = Some bp
                 \<and> exec_field_assign stmt2 s1 = Some (Ok s2) \<longrightarrow>
                   (inst bp = next_ref s \<longrightarrow> heap s2 (inst b) = heap s (inst b))
                 \<and> (inst bp = inst b \<longrightarrow> heap s2 (next_ref s) = heap s1 (next_ref s)))))
   \<and> (\<forall>s' stmt2 p f n bp s2 r.
         parse_field_assign stmt2 = Inr (p, f, n) \<and> env s' p = Some bp
         \<and> exec_field_assign stmt2 s' = Some (Ok s2) \<and> r \<noteq> inst bp \<longrightarrow>
           heap s2 r = heap s' r)"
proof -
  have frame: "heap s2 r = heap s' r"
    if "parse_field_assign stmt2 = Inr (p, f, n) \<and> env s' p = Some bp
        \<and> exec_field_assign stmt2 s' = Some (Ok s2) \<and> r \<noteq> inst bp"
    for s' stmt2 p f n bp s2 r
    using that exec_field_assign_Ok [of stmt2 p f n s' s2] by (auto simp: set_field_simps)
  have unbound: "exec_let stmt s = Some (Raise (UnknownVariable src) s)" if "env s src = None"
    using that assms(3) by (simp add: exec_let_def get_binding_def)
  have bound: "\<exists>s1. exec_let stmt s = Some (Ok s1)
           \<and> env s1 = (env s)(v \<mapsto> \<lparr>inst = next_ref s, view_cls = view_cls b\<rparr>)
           \<and> next_ref s \<noteq> inst b
           \<and> cls (heap s1 (next_ref s)) = cls (heap s (inst b))
           \<and> inst_fields (heap s1 (next_ref s)) = inst_fields (heap s (inst b))
           \<and> (\<forall>r. r \<noteq> next_ref s \<longrightarrow> heap s1 r = heap s r)
           \<and> (\<forall>stmt2 p f n bp s2.
                 parse_field_assign stmt2 = Inr (p, f, n) \<and> env s1 p = Some bp
                 \<and> exec_field_assign stmt2 s1 = Some (Ok s2) \<longrightarrow>
                   (inst bp = next_ref s \<longrightarrow> heap s2 (inst b) = heap s (inst b))
                 \<and> (inst bp = inst b \<longrightarrow> heap s2 (next_ref s) = heap s1 (next_ref s)))"
    if b: "env s src = Some b" for b
  proof -
    define s1 where "s1 = s\<lparr>heap := (heap s)(next_ref s := \<lparr>cls = cls (heap s (inst b)),
                                                      inst_fields = inst_fields (heap s (inst b))\<rparr>),
                     next_ref := Suc (next_ref s),
                     env := (env s)(v \<mapsto> \<lparr>inst = next_ref s, view_cls = view_cls b\<rparr>)\<rparr>"
    from empty_env_inv [OF assms(1)] run_stmts_inv [OF assms(2)] have "refs_allocated s" by simp
    with b have fresh: "next_ref s \<noteq> inst b" unfolding refs_allocated_def by fastforce
    have run: "exec_let stmt s = Some (Ok s1)"
      using b assms(3)
      by (simp add: exec_let_def get_binding_def clone_def alloc_def bind_var_def s1_def)
    have e1: "env s1 = (env s)(v \<mapsto> \<lparr>inst = next_ref s, view_cls = view_cls b\<rparr>)"
      by (simp add: s1_def)
    have copy: "cls (heap s1 (next_ref s)) = cls (heap s (inst b))"
               "inst_fields (heap s1 (next_ref s)) = inst_fields (heap s (inst b))"
      by (simp_all add: s1_def)
    have other: "\<forall>r. r \<noteq> next_ref s \<longrightarrow> heap s1 r = heap s r" by (simp add: s1_def)
    have indep: "(inst bp = next_ref s \<longrightarrow> heap s2 (inst b) = heap s (inst b))
                 \<and> (inst bp = inst b \<longrightarrow> heap s2 (next_ref s) = heap s1 (next_ref s))"
      if h: "parse_field_assign stmt2 = Inr (p, f, n) \<and> env s1 p = Some bp
             \<and> exec_field_assign stmt2 s1 = Some (Ok s2)"
      for stmt2 p f n bp s2
    proof (intro conjI impI)
      assume "inst bp = next_ref s"
      with fresh have "inst b \<noteq> inst bp" by simp
      with h frame [of stmt2 p f n s1 bp s2 "inst b"] have "heap s2 (inst b) = heap s1 (inst b)"
        by simp
      with other fresh show "heap s2 (inst b) = heap s (inst b)" by simp
    next
      assume "inst bp = inst b"
      with fresh have "next_ref s \<noteq> inst bp" by simp
      with h frame [of stmt2 p f n s1 bp s2 "next_ref s"]
      show "heap s2 (next_ref s) = heap s1 (next_ref s)" by simp
    qed
    from run e1 fresh copy other indep show ?thesis by blast
  qed
  from unbound bound frame show ?thesis by blast
qed


theorem clone_is_independent_witness:
  "env demo = Map.empty
   \<and> run_stmts [''let x = new B(1, 2)''] demo = Some (Ok demo_B)
   \<and> parse_let ''let z = clone x'' = Inr (''z'', Clone ''x'')
   \<and> env demo_B ''x'' = Some \<lparr>inst = 0, view_cls = 1\<rparr>
   \<and> exec_let ''let z = clone x'' demo_B = Some (Ok demo_clone)
   \<and> parse_field_assign ''z.b = 9'' = Inr (''z'', ''b'', 9)
   \<and> exec_field_assign ''z.b = 9'' demo_clone = Some (Ok (set_field 1 ''b'' 9 demo_clone))
   \<and> heap (set_field 1 ''b'' 9 demo_clone) 0 = heap demo_B 0
   \<and> parse_field_assign ''x.b = 5'' = Inr (''x'', ''b'', 5)
   \<and> exec_field_assign ''x.b = 5'' demo_clone = Some (Ok (set_field 0 ''b'' 5 demo_clone))
   \<and> heap (set_field 0 ''b'' 5 demo_clone) 1 = heap demo_clone 1"
proof -
  let ?bx = "\<lparr>inst = 0, view_cls = 1\<rparr>" and ?bz = "\<lparr>inst = 1, view_cls = 1\<rparr>"
  have e0: "env demo = Map.empty" by (simp add: demo_def)
  have p: "parse_let ''let z = clone x'' = Inr (''z'', Clone ''x'')" by code_simp
  have p1: "parse_field_assign ''z.b = 9'' = Inr (''z'', ''b'', 9)" by code_simp
  have p2: "parse_field_assign ''x.b = 5'' = Inr (''x'', ''b'', 5)" by code_simp
  have e: "env demo_B ''x'' = Some ?bx" "next_ref demo_B = 1"
          "heap demo_B 0 = \<lparr>cls = 1, inst_fields = [(''a'', 1), (''b'', 2)]\<rparr>"
    by (simp_all add: demo_B_def)
  have ec: "env demo_clone ''x'' = Some ?bx" "env demo_clone ''z'' = Some ?bz"
           "heap demo_clone 0 = \<lparr>cls = 1, inst_fields = [(''a'', 1), (''b'', 2)]\<rparr>"
           "heap demo_clone (Suc 0) = \<lparr>cls = 1, inst_fields = [(''a'', 1), (''b'', 2)]\<rparr>"
    by (simp_all add: demo_clone_def demo_B_def)
  have r: "exec_let ''let z = clone x'' demo_B = Some (Ok demo_clone)"
    by (simp add: exec_let_def p get_binding_def e clone_def alloc_def bind_var_def demo_clone_def)
  have f1: "exec_field_assign ''z.b = 9'' demo_clone = Some (Ok (set_field 1 ''b'' 9 demo_clone))"
    by (simp add: exec_field_assign_def p1 get_binding_def ec)
  have f2: "exec_field_assign ''x.b = 5'' demo_clone = Some (Ok (set_field 0 ''b'' 5 demo_clone))"
    by (simp add: exec_field_assign_def p2 get_binding_def ec)
  from clone_is_independent [OF e0 demo_run_new p, THEN conjunct2, THEN conjunct1, rule_format, OF e(1)] r
  have indep: "\<And>stmt2 p f n bp s2.
      parse_field_assign stmt2 = Inr (p, f, n) \<Longrightarrow> env demo_clone p = Some bp \<Longrightarrow>
      exec_field_assign stmt2 demo_clone = Some (Ok s2) \<Longrightarrow>
        (inst bp = next_ref demo_B \<longrightarrow> heap s2 (inst ?bx) = heap demo_B (inst ?bx))
      \<and> (inst bp = inst ?bx \<longrightarrow> heap s2 (next_ref demo_B) = heap demo_clone (next_ref demo_B))"
    by auto
  from indep [OF p1 ec(2) f1] e(2)
  have i1: "heap (set_field 1 ''b'' 9 demo_clone) 0 = heap demo_B 0" by simp
  from indep [OF p2 ec(1) f2] e(2)
  have i2: "heap (set_field 0 ''b'' 5 demo_clone) 1 = heap demo_clone 1" by simp
  from e0 demo_run_new p p1 p2 e(1) r f1 f2 i1 i2 show ?thesis by simp
qed


section \<open>The view invariant\<close>

text \<open>
  C8. Let \<open>s\<close> be reached from a state with an empty environment by running a list of
  statements without error. Then for every binding of \<open>s\<close>, \<open>is_subclass_of\<close> from the
  runtime class of its instance to its view class returns true. And a further statement
  that succeeds in \<open>s\<close> leaves every binding as it is, view class included, except for the
  variable that a \<open>let\<close> statement names, which gets a new binding.
\<close>

theorem view_class_invariant:
  assumes "env s0 = Map.empty" and "run_stmts pre s0 = Some (Ok s)"
  shows "(\<forall>x b. env s x = Some b \<longrightarrow>
            is_subclass_of (class_objs s) (cls (heap s (inst b))) (view_cls b) = Some True)
       \<and> (\<forall>st s'. exec_statement st s = Some (Ok s') \<longrightarrow>
            (\<forall>y. env s' y = env s y \<or> (\<exists>e. parse_let (strip (split_head '';'' st)) = Inr (y, e))))"
proof -
  from empty_env_inv [OF assms(1)] run_stmts_inv [OF assms(2)]
  have "views_ok s" by simp
  then have inv: "\<forall>x b. env s x = Some b \<longrightarrow>
      is_subclass_of (class_objs s) (cls (heap s (inst b))) (view_cls b) = Some True"
    by (simp add: views_ok_def)
  have frame: "env s' y = env s y \<or> (\<exists>e. parse_let (strip (split_head '';'' st)) = Inr (y, e))"
    if "exec_statement st s = Some (Ok s')" for st s' y
    using exec_statement_cases [OF that]
  proof (elim disjE exE conjE)
    assume "s' = s" then show ?thesis by simp
  next
    fix x e assume p: "parse_let (strip (split_head '';'' st)) = Inr (x, e)"
      and r: "exec_let_expr x e s = Some (Ok s')"
    show ?thesis
    proof (cases "y = x")
      case True with p show ?thesis by blast
    next
      case False with exec_let_expr_env [OF r] show ?thesis by simp
    qed
  next
    assume "exec_field_assign (strip (split_head '';'' st)) s = Some (Ok s')"
    from exec_field_assign_inv [OF this] show ?thesis by simp
  next
    assume "exec_call (strip (split_head '';'' st)) s = Some (Ok s')"
    from exec_call_inv [OF this] show ?thesis by simp
  next
    assume "exec_is (strip (split_head '';'' st)) s = Some (Ok s')"
    from exec_is_inv [OF this] show ?thesis by simp
  qed
  from inv frame show ?thesis by blast
qed


theorem view_class_invariant_witness:
  "env demo = Map.empty
   \<and> run_stmts [''let x = new B(1, 2)'', ''let y = cast<A> x''] demo = Some (Ok demo_cast)
   \<and> env demo_cast ''y'' = Some \<lparr>inst = 0, view_cls = 0\<rparr>
   \<and> cls (heap demo_cast 0) = 1
   \<and> is_subclass_of (class_objs demo_cast) 1 0 = Some True"
proof -
  have e0: "env demo = Map.empty" by (simp add: demo_def)
  have e: "env demo_cast ''y'' = Some \<lparr>inst = 0, view_cls = 0\<rparr>" by (simp add: demo_cast_def)
  have h: "cls (heap demo_cast 0) = 1" by (simp add: demo_cast_def demo_B_def)
  from view_class_invariant [OF e0 demo_run_cast, THEN conjunct1, rule_format, OF e] h
  have "is_subclass_of (class_objs demo_cast) 1 0 = Some True" by simp
  with e0 demo_run_cast e h show ?thesis by simp
qed

section \<open>Integer literal tokens\<close>

text \<open>
  C10, as the code has it. Let \<open>tok\<close> be one or more decimal digits, with or without a
  minus sign in front, and \<open>n\<close> the integer it denotes. \<open>is_int\<close> accepts \<open>tok\<close>. When
  \<open>tok\<close> has no more digits than \<open>int\<close> converts (4300), \<open>int\<close> reads it as \<open>n\<close>: the loop
  over constructor arguments takes an argument whose stripped text is \<open>tok\<close> as the value
  \<open>n\<close>, and a bracket holding just that argument yields the one argument \<open>n\<close>; a field
  assignment whose stripped right-hand side is \<open>tok\<close> is read as assigning \<open>n\<close>; the loop
  over a method body emits \<open>n\<close> for the token \<open>tok\<close> and never looks it up as a field,
  whatever fields the instance has. When \<open>tok\<close> has more digits, \<open>int\<close> raises, and so do
  the three places: the token is rejected.
\<close>

theorem int_literal_accepted:
  assumes "ds \<noteq> []" and "\<forall>c\<in>set ds. isdigit c"
      and "(tok = ds \<and> n = decimal ds) \<or> (tok = CHR ''-'' # ds \<and> n = - decimal ds)"
  shows "is_int tok
       \<and> (length ds \<le> int_max_str_digits \<longrightarrow>
            py_int tok = Inr n
          \<and> (\<forall>t toks acc. strip t = tok \<longrightarrow>
                ctor_args (t # toks) acc = ctor_args toks (acc @ [n]))
          \<and> (\<forall>t. strip t = tok \<and> CHR '','' \<notin> set t \<longrightarrow> parse_new_args t = Inr [n])
          \<and> (\<forall>stmt left right var_part field_part.
                split_once ''='' stmt = Some (left, right) \<and> strip right = tok
                \<and> split_once ''.'' (strip left) = Some (var_part, field_part) \<longrightarrow>
                parse_field_assign stmt = Inr (strip var_part, strip field_part, n))
          \<and> (\<forall>fs m toks acc.
                eval_tokens fs m (tok # toks) acc = eval_tokens fs m toks (acc @ [n])))
       \<and> (int_max_str_digits < length ds \<longrightarrow>
            py_int tok = Inl (IntDigitLimit (length ds))
          \<and> (\<forall>t toks acc. strip t = tok \<longrightarrow>
                ctor_args (t # toks) acc = Inl (IntDigitLimit (length ds)))
          \<and> (\<forall>stmt left right.
                split_once ''='' stmt = Some (left, right) \<and> strip right = tok \<longrightarrow>
                parse_field_assign stmt = Inl (IntDigitLimit (length ds)))
          \<and> (\<forall>fs m toks acc.
                eval_tokens fs m (tok # toks) acc = Inl (IntDigitLimit (length ds))))"
proof -
  from assms(3) digits_is_int [OF assms(1,2)] have i: "is_int tok" by auto
  have small: "py_int tok = Inr n
          \<and> (\<forall>t toks acc. strip t = tok \<longrightarrow>
                ctor_args (t # toks) acc = ctor_args toks (acc @ [n]))
          \<and> (\<forall>t. strip t = tok \<and> CHR '','' \<notin> set t \<longrightarrow> parse_new_args t = Inr [n])
          \<and> (\<forall>stmt left right var_part field_part.
                split_once ''='' stmt = Some (left, right) \<and> strip right = tok
                \<and> split_once ''.'' (strip left) = Some (var_part, field_part) \<longrightarrow>
                parse_field_assign stmt = Inr (strip var_part, strip field_part, n))
          \<and> (\<forall>fs m toks acc.
                eval_tokens fs m (tok # toks) acc = eval_tokens fs m toks (acc @ [n]))"
    if le: "length ds \<le> int_max_str_digits"
  proof -
    from le assms(3) digits_py_int [OF assms(1,2)] have v: "py_int tok = Inr n" by auto
    have c: "ctor_args (t # toks) acc = ctor_args toks (acc @ [n])"
      if "strip t = tok" for t toks acc
      using that i v by simp
    have a: "parse_new_args t = Inr [n]" if "strip t = tok \<and> CHR '','' \<notin> set t" for t
    proof -
      from assms(1,3) have "tok \<noteq> []" by auto
      with that c [of t "[]" "[]"] show ?thesis
        by (simp add: parse_new_args_def split_all_absent)
    qed
    have f: "parse_field_assign stmt = Inr (strip var_part, strip field_part, n)"
      if "split_once ''='' stmt = Some (left, right) \<and> strip right = tok
          \<and> split_once ''.'' (strip left) = Some (var_part, field_part)"
      for stmt left right var_part field_part
      using that i v by (simp add: parse_field_assign_def)
    have e: "eval_tokens fs m (tok # toks) acc = eval_tokens fs m toks (acc @ [n])"
      for fs m toks acc
      using i v by simp
    from v c a f e show ?thesis by blast
  qed
  have big: "py_int tok = Inl (IntDigitLimit (length ds))
          \<and> (\<forall>t toks acc. strip t = tok \<longrightarrow>
                ctor_args (t # toks) acc = Inl (IntDigitLimit (length ds)))
          \<and> (\<forall>stmt left right.
                split_once ''='' stmt = Some (left, right) \<and> strip right = tok \<longrightarrow>
                parse_field_assign stmt = Inl (IntDigitLimit (length ds)))
          \<and> (\<forall>fs m toks acc.
                eval_tokens fs m (tok # toks) acc = Inl (IntDigitLimit (length ds)))"
    if gt: "int_max_str_digits < length ds"
  proof -
    from gt assms(3) digits_py_int [OF assms(1,2)]
    have v: "py_int tok = Inl (IntDigitLimit (length ds))" by auto
    have c: "ctor_args (t # toks) acc = Inl (IntDigitLimit (length ds))"
      if "strip t = tok" for t toks acc
      using that i v by simp
    have f: "parse_field_assign stmt = Inl (IntDigitLimit (length ds))"
      if "split_once ''='' stmt = Some (left, right) \<and> strip right = tok"
      for stmt left right
      using that i v by (simp add: parse_field_assign_def)
    have e: "eval_tokens fs m (tok # toks) acc = Inl (IntDigitLimit (length ds))"
      for fs m toks acc
      using i v by simp
    from v c f e show ?thesis by blast
  qed
  from i small big show ?thesis by blast
qed

theorem int_literal_accepted_witness:
  "''3'' \<noteq> [] \<and> isdigit CHR ''3'' \<and> decimal ''3'' = 3
   \<and> length ''3'' \<le> int_max_str_digits
   \<and> is_int ''-3'' \<and> py_int ''-3'' = Inr (- 3)
   \<and> ctor_args ['' -3 '', ''4''] [] = ctor_args [''4''] [- 3]
   \<and> parse_field_assign ''x.a = -3'' = Inr (''x'', ''a'', - 3)
   \<and> eval_tokens [(''-3'', 5)] ''m'' [''-3''] [] = Inr [- 3]"
proof -
  have h1: "''3'' \<noteq> []" by simp
  have h2: "\<forall>c\<in>set ''3''. isdigit c" by (simp add: isdigit_def)
  have d: "decimal ''3'' = 3" by (simp add: decimal_def digit_val_def)
  have h3: "(''-3'' = ''3'' \<and> (- 3 :: int) = decimal ''3'')
          \<or> (''-3'' = CHR ''-'' # ''3'' \<and> (- 3 :: int) = - decimal ''3'')"
    by (simp add: d)
  have le: "length ''3'' \<le> int_max_str_digits" by (simp add: int_max_str_digits_def)
  have s1: "strip '' -3 '' = ''-3''" by code_simp
  have s2: "split_once ''='' ''x.a = -3'' = Some (''x.a '', '' -3'')" by code_simp
  have s3: "strip '' -3'' = ''-3''" by code_simp
  have s4: "split_once ''.'' (strip ''x.a '') = Some (''x'', ''a'')" by code_simp
  have s5: "strip ''x'' = ''x''" "strip ''a'' = ''a''" by code_simp+
  note T = int_literal_accepted [OF h1 h2 h3, THEN conjunct2, THEN conjunct1, rule_format, OF le]
  from int_literal_accepted [OF h1 h2 h3] have a: "is_int ''-3''" by simp
  from T have a': "py_int ''-3'' = Inr (- 3)" by simp
  from T s1 have b: "ctor_args ['' -3 '', ''4''] [] = ctor_args [''4''] [- 3]" by simp
  from T [THEN conjunct2, THEN conjunct2, THEN conjunct2, THEN conjunct1, rule_format,
          of "''x.a = -3''" "''x.a ''" "'' -3''" "''x''" "''a''"] s2 s3 s4 s5
  have c: "parse_field_assign ''x.a = -3'' = Inr (''x'', ''a'', - 3)" by simp
  from T have e: "eval_tokens [(''-3'', 5)] ''m'' [''-3''] [] = Inr [- 3]" by simp
  from h2 have h2': "isdigit CHR ''3''" by simp
  from h1 h2' d le a a' b c e show ?thesis by simp
qed

text \<open>
  A token of 4301 digits: \<open>is_int\<close> accepts it, and \<open>int\<close> raises on it in the loop over
  constructor arguments, in a field assignment and in a method body.
\<close>

theorem int_literal_limit_counterexample:
  "is_int long_literal
   \<and> py_int long_literal = Inl (IntDigitLimit 4301)
   \<and> ctor_args [long_literal] [] = Inl (IntDigitLimit 4301)
   \<and> parse_field_assign (''x.a = '' @ long_literal) = Inl (IntDigitLimit 4301)
   \<and> eval_tokens [] ''m'' [long_literal] [] = Inl (IntDigitLimit 4301)"
proof -
  have ne: "long_literal \<noteq> []" by (simp add: long_literal_def)
  have dg: "\<forall>c\<in>set long_literal. isdigit c" by (simp add: long_literal_def isdigit_def)
  have len: "length long_literal = 4301" by (simp add: long_literal_def)
  from digits_is_int(1) [OF ne dg] have i: "is_int long_literal" .
  from digits_py_int(1) [OF ne dg] len
  have v: "py_int long_literal = Inl (IntDigitLimit 4301)"
    by (simp add: int_max_str_digits_def)
  from digits_strip(1) [OF ne dg] have st: "strip long_literal = long_literal" .
  from i v st have c: "ctor_args [long_literal] [] = Inl (IntDigitLimit 4301)" by simp
  have sp: "split_once ''='' (''x.a = '' @ long_literal) = Some (''x.a '', CHR '' '' # long_literal)"
    by (simp add: startswith_def)
  from sp i v st
  have f: "parse_field_assign (''x.a = '' @ long_literal) = Inl (IntDigitLimit 4301)"
    by (simp add: parse_field_assign_def strip_leading_space)
  from i v have e: "eval_tokens [] ''m'' [long_literal] [] = Inl (IntDigitLimit 4301)" by simp
  from i v c f e show ?thesis by simp
qed

end
